theory Spec2Isabelle
  imports Main "HOL-Library.Monad_Syntax"
begin

section \<open>Tiles, grid and player\<close>

text \<open>
  The dungeon map is a \<^verbatim>\<open>char**\<close>: an array of rows, each an array of tile characters.
  It is modelled as a list of rows. The allocated extent of the storage is the extent of
  the lists; \<^verbatim>\<open>maxRow\<close> and \<^verbatim>\<open>maxCol\<close> travel separately, as in the source. Reading or
  writing outside the allocated storage is undefined behaviour in C++; every operation
  below returns \<open>None\<close> when the source would do so.
\<close>

type_synonym grid = "char list list"

text \<open>
  Modelled from the spec: the header \<^verbatim>\<open>logic.h\<close> (tile and status constants, the
  \<^verbatim>\<open>Player\<close> struct) is not among the sources. The tile characters are those of the
  token table of the specification, with one exception taken from the code:
  \<^verbatim>\<open>resizeMap\<close> spells the player marker as the literal \<^verbatim>\<open>'o'\<close> (lines 139 and 152 of
  logic.cpp), so \<open>TILE_PLAYER\<close> is that character. Apart from that literal, the theorems
  below use of these constants only that they are pairwise different.
\<close>

definition TILE_OPEN :: char where "TILE_OPEN = CHR ''-''"
definition TILE_PLAYER :: char where "TILE_PLAYER = CHR ''o''"
definition TILE_TREASURE :: char where "TILE_TREASURE = CHR ''T''"
definition TILE_AMULET :: char where "TILE_AMULET = CHR ''A''"
definition TILE_MONSTER :: char where "TILE_MONSTER = CHR ''M''"
definition TILE_PILLAR :: char where "TILE_PILLAR = CHR ''#''"
definition TILE_DOOR :: char where "TILE_DOOR = CHR ''D''"
definition TILE_EXIT :: char where "TILE_EXIT = CHR ''E''"

text \<open>
  Modelled from the spec: the status codes of \<^verbatim>\<open>logic.h\<close> are \<^verbatim>\<open>int\<close> constants whose
  values are not in the sources; the specification describes them as a closed
  enumeration of move outcomes.
\<close>

datatype status =
  STATUS_STAY | STATUS_MOVE | STATUS_TREASURE | STATUS_AMULET | STATUS_LEAVE | STATUS_ESCAPE

text \<open>
  Modelled from the spec: \<^verbatim>\<open>struct Player\<close> of \<^verbatim>\<open>logic.h\<close>, with the three \<^verbatim>\<open>int\<close> fields
  the code uses. The fields range over the C++ \<^verbatim>\<open>int\<close> values; where the code does
  arithmetic that can leave that range (signed overflow is undefined), the model
  returns \<open>None\<close>.
\<close>

record Player =
  row :: int
  col :: int
  treasure :: int

definition INT_MAX :: int where "INT_MAX = 2147483647"
definition INT_MIN :: int where "INT_MIN = - 2147483648"

subsection \<open>Cell access\<close>

text \<open>\<^verbatim>\<open>map[i][j]\<close> as an rvalue: defined only inside the allocated storage.\<close>

fun cell :: "grid \<Rightarrow> int \<times> int \<Rightarrow> char option" where
  "cell m (i, j) =
     (if 0 \<le> i \<and> i < int (length m) \<and> 0 \<le> j \<and> j < int (length (m ! nat i))
      then Some (m ! nat i ! nat j) else None)"

text \<open>\<^verbatim>\<open>map[i][j] = v\<close>: defined only inside the allocated storage.\<close>

fun store :: "grid \<Rightarrow> int \<times> int \<Rightarrow> char \<Rightarrow> grid option" where
  "store m (i, j) v =
     (if 0 \<le> i \<and> i < int (length m) \<and> 0 \<le> j \<and> j < int (length (m ! nat i))
      then Some (m[nat i := (m ! nat i)[nat j := v]]) else None)"

text \<open>A map whose storage has exactly \<open>maxRow\<close> rows of \<open>maxCol\<close> cells each.\<close>

definition wf_grid :: "grid \<Rightarrow> int \<Rightarrow> int \<Rightarrow> bool" where
  "wf_grid m maxRow maxCol \<longleftrightarrow>
     int (length m) = maxRow \<and> list_all (\<lambda>r. int (length r) = maxCol) m"

definition in_bounds :: "int \<Rightarrow> int \<Rightarrow> int \<times> int \<Rightarrow> bool" where
  "in_bounds maxRow maxCol p \<longleftrightarrow> 0 \<le> fst p \<and> fst p < maxRow \<and> 0 \<le> snd p \<and> snd p < maxCol"

section \<open>createMap\<close>

text \<open>
  \<^verbatim>\<open>new char*[maxRow]\<close> and \<^verbatim>\<open>new char[maxCol]\<close> with a negative length throw
  \<^verbatim>\<open>std::bad_array_new_length\<close>; with length zero they return a non-null pointer to an
  empty array. The function has no other exit: it never returns \<^verbatim>\<open>nullptr\<close>.
  The result is \<open>Inl\<close> for the exception and \<open>Inr\<close> for the returned pointer, which is
  \<open>None\<close> for \<^verbatim>\<open>nullptr\<close>. The row allocations happen in the first loop, so a negative
  \<open>maxCol\<close> throws only when there is at least one row.
\<close>

datatype exn = BadArrayNewLength

definition createMap :: "int \<Rightarrow> int \<Rightarrow> exn + grid option" where
  "createMap maxRow maxCol =
     (if maxRow < 0 then Inl BadArrayNewLength
      else if 0 < maxRow \<and> maxCol < 0 then Inl BadArrayNewLength
      else Inr (Some (replicate (nat maxRow) (replicate (nat maxCol) TILE_OPEN))))"

section \<open>doPlayerMove\<close>

text \<open>
  The four statements every relocating branch of \<^verbatim>\<open>doPlayerMove\<close> repeats: vacate the
  player's cell, mark the next cell, update the player's position.
\<close>

definition relocate ::
  "status \<Rightarrow> grid \<Rightarrow> Player \<Rightarrow> int \<Rightarrow> int \<Rightarrow> (status \<times> grid \<times> Player) option" where
  "relocate st m player nextRow nextCol =
     do {
       m1 \<leftarrow> store m (row player, col player) TILE_OPEN;
       m2 \<leftarrow> store m1 (nextRow, nextCol) TILE_PLAYER;
       Some (st, m2, player\<lparr>row := nextRow, col := nextCol\<rparr>)
     }"

definition doPlayerMove ::
  "grid \<Rightarrow> int \<Rightarrow> int \<Rightarrow> Player \<Rightarrow> int \<Rightarrow> int \<Rightarrow> (status \<times> grid \<times> Player) option" where
  "doPlayerMove m maxRow maxCol player nextRow nextCol =
     (if nextRow < 0 \<or> nextRow \<ge> maxRow then Some (STATUS_STAY, m, player)
      else if nextCol < 0 \<or> nextCol \<ge> maxCol then Some (STATUS_STAY, m, player)
      else
        do {
          t \<leftarrow> cell m (nextRow, nextCol);
          if t = TILE_PILLAR \<or> t = TILE_MONSTER then Some (STATUS_STAY, m, player)
          else if t = TILE_TREASURE then
            (if treasure player = INT_MAX then None
             else relocate STATUS_TREASURE m
                    (player\<lparr>treasure := treasure player + 1\<rparr>) nextRow nextCol)
          else if t = TILE_AMULET then relocate STATUS_AMULET m player nextRow nextCol
          else if t = TILE_DOOR then relocate STATUS_LEAVE m player nextRow nextCol
          else if t = TILE_EXIT then
            (if treasure player \<ge> 1 then relocate STATUS_ESCAPE m player nextRow nextCol
             else Some (STATUS_STAY, m, player))
          else relocate STATUS_MOVE m player nextRow nextCol
        })"

text \<open>
  The outcomes of the branches that move the player: every status but \<open>STATUS_STAY\<close>.
\<close>

definition relocation_status :: "status \<Rightarrow> bool" where
  "relocation_status st \<longleftrightarrow>
     st \<in> {STATUS_MOVE, STATUS_TREASURE, STATUS_AMULET, STATUS_LEAVE, STATUS_ESCAPE}"

text \<open>The coordinates of the cells of the storage that hold the player marker, in row-major order.\<close>

definition player_cells :: "grid \<Rightarrow> (int \<times> int) list" where
  "player_cells m =
     concat (map (\<lambda>i. map (\<lambda>j. (int i, int j))
                          (filter (\<lambda>j. m ! i ! j = TILE_PLAYER) [0..<length (m ! i)]))
                 [0..<length m])"

section \<open>resizeMap\<close>

text \<open>
  The search loop of \<^verbatim>\<open>resizeMap\<close> (lines 137 to 144): every cell is compared with the
  literal \<^verbatim>\<open>'o'\<close>, and the last match in row-major order wins.
\<close>

function findCols :: "grid \<Rightarrow> int \<Rightarrow> int \<Rightarrow> int \<Rightarrow> int \<times> int \<Rightarrow> (int \<times> int) option" where
  "findCols m maxCol i j cur =
     (if j < maxCol then
        do {
          t \<leftarrow> cell m (i, j);
          findCols m maxCol i (j + 1) (if t = CHR ''o'' then (i, j) else cur)
        }
      else Some cur)"
  by pat_completeness auto
termination
  by (relation "measure (\<lambda>(m, maxCol, i, j, cur). nat (maxCol - j))") auto

function findRows :: "grid \<Rightarrow> int \<Rightarrow> int \<Rightarrow> int \<Rightarrow> int \<times> int \<Rightarrow> (int \<times> int) option" where
  "findRows m maxRow maxCol i cur =
     (if i < maxRow then
        do {
          cur' \<leftarrow> findCols m maxCol i 0 cur;
          findRows m maxRow maxCol (i + 1) cur'
        }
      else Some cur)"
  by pat_completeness auto
termination
  by (relation "measure (\<lambda>(m, maxRow, maxCol, i, cur). nat (maxRow - i))") auto

text \<open>
  The tiling loop (lines 147 to 151). The loop body runs only for non-negative \<open>i\<close>, \<open>j\<close>
  and, since \<open>tempRow = 2 * maxRow\<close> and \<open>tempCol = 2 * maxCol\<close>, only for positive \<open>maxRow\<close>
  and \<open>maxCol\<close>; there the remainder of C++ is \<open>mod\<close>.
\<close>

function tileCols :: "grid \<Rightarrow> grid \<Rightarrow> int \<Rightarrow> int \<Rightarrow> int \<Rightarrow> int \<Rightarrow> int \<Rightarrow> grid option" where
  "tileCols m resize maxRow maxCol tempCol i j =
     (if j < tempCol then
        do {
          t \<leftarrow> cell m (i mod maxRow, j mod maxCol);
          resize' \<leftarrow> store resize (i, j) t;
          tileCols m resize' maxRow maxCol tempCol i (j + 1)
        }
      else Some resize)"
  by pat_completeness auto
termination
  by (relation "measure (\<lambda>(m, resize, maxRow, maxCol, tempCol, i, j). nat (tempCol - j))") auto

function tileRows :: "grid \<Rightarrow> grid \<Rightarrow> int \<Rightarrow> int \<Rightarrow> int \<Rightarrow> int \<Rightarrow> int \<Rightarrow> grid option" where
  "tileRows m resize maxRow maxCol tempRow tempCol i =
     (if i < tempRow then
        do {
          resize' \<leftarrow> tileCols m resize maxRow maxCol tempCol i 0;
          tileRows m resize' maxRow maxCol tempRow tempCol (i + 1)
        }
      else Some resize)"
  by pat_completeness auto
termination
  by (relation "measure (\<lambda>(m, resize, maxRow, maxCol, tempRow, tempCol, i). nat (tempRow - i))") auto

text \<open>
  \<^verbatim>\<open>resizeMap\<close> itself. The result is \<open>None\<close> for undefined behaviour (overflow of the
  doubled dimensions, an access outside the storage), \<open>Some (Inl e)\<close> when an allocation
  throws, and otherwise the new map with the updated \<^verbatim>\<open>maxRow\<close> and \<^verbatim>\<open>maxCol\<close>. The new
  storage is allocated uninitialised; the filler character stands for its indeterminate
  content, which the tiling loop overwrites in every cell. The old map is written to
  (its marker cell is set to open) and then released by \<^verbatim>\<open>deleteMap\<close>.
\<close>

definition resizeMap :: "grid \<Rightarrow> int \<Rightarrow> int \<Rightarrow> (exn + grid \<times> int \<times> int) option" where
  "resizeMap m maxRow maxCol =
     (if 2 * maxRow < INT_MIN \<or> INT_MAX < 2 * maxRow \<or>
         2 * maxCol < INT_MIN \<or> INT_MAX < 2 * maxCol then None
      else
        let tempRow = 2 * maxRow; tempCol = 2 * maxCol in
        if tempRow < 0 \<or> (0 < tempRow \<and> tempCol < 0) then Some (Inl BadArrayNewLength)
        else
          do {
            cur \<leftarrow> findRows m maxRow maxCol 0 (0, 0);
            m1 \<leftarrow> store m cur TILE_OPEN;
            resize \<leftarrow> tileRows m1 (replicate (nat tempRow) (replicate (nat tempCol) (CHR 0x00)))
                        maxRow maxCol tempRow tempCol 0;
            resize' \<leftarrow> store resize cur (CHR ''o'');
            Some (Inr (resize', tempRow, tempCol))
          })"

declare findCols.simps [simp del] findRows.simps [simp del]
  tileCols.simps [simp del] tileRows.simps [simp del]

section \<open>loadLevel\<close>

text \<open>
  The input stream. \<^verbatim>\<open>loadLevel\<close> only ever extracts from the \<^verbatim>\<open>ifstream\<close> and never clears
  its state, so a stream is either good, with the characters not yet read, or failed;
  a failed stream turns every later extraction into a no-op that leaves its target
  unchanged. A stream that has reached the end of the file behaves like a good one with
  nothing left to read: the next extraction finds no character and fails.
\<close>

type_synonym istream = "string option"

definition isspace :: "char \<Rightarrow> bool" where
  "isspace ch \<longleftrightarrow> ch \<in> {CHR '' '', CHR 0x09, CHR 0x0A, CHR 0x0B, CHR 0x0C, CHR 0x0D}"

definition isdigit :: "char \<Rightarrow> bool" where
  "isdigit ch \<longleftrightarrow> 48 \<le> (of_char ch :: nat) \<and> (of_char ch :: nat) \<le> 57"

definition digits_val :: "string \<Rightarrow> int" where
  "digits_val ds = foldl (\<lambda>a ch. 10 * a + (int (of_char ch) - 48)) 0 ds"

text \<open>
  \<^verbatim>\<open>ifs >> x\<close> for an \<^verbatim>\<open>int x\<close>, given the value \<open>old\<close> that \<open>x\<close> holds: leading white space
  is skipped, then an optional sign and decimal digits are read. With no character left
  the target is unchanged; with no digit it becomes 0; a value outside \<^verbatim>\<open>int\<close> is clamped;
  in all three cases the stream fails.
\<close>

definition extract_int :: "istream \<Rightarrow> int \<Rightarrow> int \<times> istream" where
  "extract_int ifs old =
     (case ifs of
        None \<Rightarrow> (old, None)
      | Some buf \<Rightarrow>
          (case dropWhile isspace buf of
             [] \<Rightarrow> (old, None)
           | ch # rest \<Rightarrow>
               let body = (if ch = CHR ''-'' \<or> ch = CHR ''+'' then rest else ch # rest);
                   ds = takeWhile isdigit body;
                   v = (if ch = CHR ''-'' then - digits_val ds else digits_val ds)
               in if ds = [] then (0, None)
                  else if INT_MAX < v then (INT_MAX, None)
                  else if v < INT_MIN then (INT_MIN, None)
                  else (v, Some (dropWhile isdigit body))))"

text \<open>
  \<^verbatim>\<open>ifs >> x\<close> for a \<^verbatim>\<open>char x\<close>: leading white space is skipped and one character is read;
  with no character left the target is unchanged and the stream fails.
\<close>

definition extract_char :: "istream \<Rightarrow> char \<Rightarrow> char \<times> istream" where
  "extract_char ifs old =
     (case ifs of
        None \<Rightarrow> (old, None)
      | Some buf \<Rightarrow>
          (case dropWhile isspace buf of
             [] \<Rightarrow> (old, None)
           | ch # rest \<Rightarrow> (ch, Some rest)))"

text \<open>
  Lines 25 and 26: the four header extractions, into \<^verbatim>\<open>maxRow\<close>, \<^verbatim>\<open>maxCol\<close>, \<^verbatim>\<open>player.row\<close>
  and \<^verbatim>\<open>player.col\<close>. No other field of the player is written.
\<close>

definition readHeader :: "istream \<Rightarrow> int \<Rightarrow> int \<Rightarrow> Player \<Rightarrow> int \<times> int \<times> Player \<times> istream" where
  "readHeader ifs maxRow maxCol player =
     (let (maxRow', s1) = extract_int ifs maxRow;
          (maxCol', s2) = extract_int s1 maxCol;
          (r, s3) = extract_int s2 (row player);
          (c, s4) = extract_int s3 (col player)
      in (maxRow', maxCol', player\<lparr>row := r, col := c\<rparr>, s4))"

text \<open>The inner and the outer loop of lines 35 to 42.\<close>

function loadCols ::
  "istream \<Rightarrow> grid \<Rightarrow> int \<Rightarrow> Player \<Rightarrow> int \<Rightarrow> int \<Rightarrow> (grid \<times> istream) option" where
  "loadCols ifs diffMap maxCol player i j =
     (if j < maxCol then
        do {
          old \<leftarrow> cell diffMap (i, j);
          m1 \<leftarrow> store diffMap (i, j) (fst (extract_char ifs old));
          m2 \<leftarrow> (if i = row player \<and> j = col player then store m1 (i, j) TILE_PLAYER
                 else Some m1);
          loadCols (snd (extract_char ifs old)) m2 maxCol player i (j + 1)
        }
      else Some (diffMap, ifs))"
  by pat_completeness auto
termination
  by (relation "measure (\<lambda>(ifs, diffMap, maxCol, player, i, j). nat (maxCol - j))") auto

function loadRows ::
  "istream \<Rightarrow> grid \<Rightarrow> int \<Rightarrow> int \<Rightarrow> Player \<Rightarrow> int \<Rightarrow> (grid \<times> istream) option" where
  "loadRows ifs diffMap maxRow maxCol player i =
     (if i < maxRow then
        do {
          (m1, ifs1) \<leftarrow> loadCols ifs diffMap maxCol player i 0;
          loadRows ifs1 m1 maxRow maxCol player (i + 1)
        }
      else Some (diffMap, ifs))"
  by pat_completeness auto
termination
  by (relation "measure (\<lambda>(ifs, diffMap, maxRow, maxCol, player, i). nat (maxRow - i))") auto

text \<open>
  \<^verbatim>\<open>loadLevel\<close>. The argument \<open>file\<close> is what opening \<^verbatim>\<open>fileName\<close> finds: \<open>None\<close> when the file
  cannot be opened, else its content. The result is \<open>None\<close> for undefined behaviour,
  \<open>Some (Inl e)\<close> when an exception leaves the function, and otherwise the returned pointer
  (\<open>None\<close> for \<^verbatim>\<open>nullptr\<close>) with the values of the reference parameters \<^verbatim>\<open>maxRow\<close>, \<^verbatim>\<open>maxCol\<close>
  and \<^verbatim>\<open>player\<close> at the return. The messages written to \<^verbatim>\<open>cout\<close> are left out.
\<close>

definition loadLevel ::
  "string option \<Rightarrow> int \<Rightarrow> int \<Rightarrow> Player \<Rightarrow> (exn + grid option \<times> int \<times> int \<times> Player) option" where
  "loadLevel file maxRow maxCol player =
     (case file of
        None \<Rightarrow> Some (Inr (None, maxRow, maxCol, player))
      | Some content \<Rightarrow>
          (case readHeader (Some content) maxRow maxCol player of
             (maxRow', maxCol', player', ifs) \<Rightarrow>
               (case createMap maxRow' maxCol' of
                  Inl e \<Rightarrow> Some (Inl e)
                | Inr None \<Rightarrow> Some (Inr (None, maxRow', maxCol', player'))
                | Inr (Some diffMap) \<Rightarrow>
                    (case loadRows ifs diffMap maxRow' maxCol' player' 0 of
                       None \<Rightarrow> None
                     | Some (m, ifs') \<Rightarrow> Some (Inr (Some m, maxRow', maxCol', player'))))))"

text \<open>
  The two loops of lines 35 to 42 without the statement of lines 38 to 40 that forces
  the player marker: the plain reading of the tile tokens, against which the effect of
  the forcing step is measured.
\<close>

function readCols :: "istream \<Rightarrow> grid \<Rightarrow> int \<Rightarrow> int \<Rightarrow> int \<Rightarrow> (grid \<times> istream) option" where
  "readCols ifs diffMap maxCol i j =
     (if j < maxCol then
        do {
          old \<leftarrow> cell diffMap (i, j);
          m1 \<leftarrow> store diffMap (i, j) (fst (extract_char ifs old));
          readCols (snd (extract_char ifs old)) m1 maxCol i (j + 1)
        }
      else Some (diffMap, ifs))"
  by pat_completeness auto
termination
  by (relation "measure (\<lambda>(ifs, diffMap, maxCol, i, j). nat (maxCol - j))") auto

function readRows :: "istream \<Rightarrow> grid \<Rightarrow> int \<Rightarrow> int \<Rightarrow> int \<Rightarrow> (grid \<times> istream) option" where
  "readRows ifs diffMap maxRow maxCol i =
     (if i < maxRow then
        do {
          (m1, ifs1) \<leftarrow> readCols ifs diffMap maxCol i 0;
          readRows ifs1 m1 maxRow maxCol (i + 1)
        }
      else Some (diffMap, ifs))"
  by pat_completeness auto
termination
  by (relation "measure (\<lambda>(ifs, diffMap, maxRow, maxCol, i). nat (maxRow - i))") auto

declare loadCols.simps [simp del] loadRows.simps [simp del]
  readCols.simps [simp del] readRows.simps [simp del]

section \<open>doMonsterAttack\<close>

text \<open>
  The block every one of the four loops of \<^verbatim>\<open>doMonsterAttack\<close> runs on a monster cell:
  \<open>here\<close> is the cell being scanned and \<open>toward\<close> its neighbour one step nearer the player.
  The monster is copied to \<open>toward\<close>, and \<open>here\<close> receives what \<open>toward\<close> held, with the
  player marker replaced by the open tile.
\<close>

definition moveMonster :: "grid \<Rightarrow> int \<times> int \<Rightarrow> int \<times> int \<Rightarrow> grid option" where
  "moveMonster m here toward =
     do {
       stay \<leftarrow> cell m toward;
       mon \<leftarrow> cell m here;
       m1 \<leftarrow> store m toward mon;
       store m1 here (if stay = TILE_PLAYER then TILE_OPEN else stay)
     }"

text \<open>
  The four loops, in the order of the source. The first walks the player's row towards
  column 0 (lines 272 to 286, commented as the tile above in the source), the second
  towards column \<open>maxCol - 1\<close> (lines 288 to 302), the third walks the player's column
  towards row 0 (lines 304 to 318) and the fourth towards row \<open>maxRow - 1\<close> (lines 320 to
  334). A loop ends at the first pillar; after moving a monster it goes on with the next
  cell.
\<close>

function scanLeft :: "grid \<Rightarrow> Player \<Rightarrow> int \<Rightarrow> grid option" where
  "scanLeft m player i =
     (if i \<ge> 0 then
        do {
          t \<leftarrow> cell m (row player, i);
          if t = TILE_PILLAR then Some m
          else if t = TILE_MONSTER then
            do {
              m' \<leftarrow> moveMonster m (row player, i) (row player, i + 1);
              scanLeft m' player (i - 1)
            }
          else scanLeft m player (i - 1)
        }
      else Some m)"
  by pat_completeness auto
termination
  by (relation "measure (\<lambda>(m, player, i). nat (i + 1))") auto

function scanRight :: "grid \<Rightarrow> int \<Rightarrow> Player \<Rightarrow> int \<Rightarrow> grid option" where
  "scanRight m maxCol player i =
     (if i < maxCol then
        do {
          t \<leftarrow> cell m (row player, i);
          if t = TILE_PILLAR then Some m
          else if t = TILE_MONSTER then
            do {
              m' \<leftarrow> moveMonster m (row player, i) (row player, i - 1);
              scanRight m' maxCol player (i + 1)
            }
          else scanRight m maxCol player (i + 1)
        }
      else Some m)"
  by pat_completeness auto
termination
  by (relation "measure (\<lambda>(m, maxCol, player, i). nat (maxCol - i))") auto

function scanUp :: "grid \<Rightarrow> Player \<Rightarrow> int \<Rightarrow> grid option" where
  "scanUp m player i =
     (if i \<ge> 0 then
        do {
          t \<leftarrow> cell m (i, col player);
          if t = TILE_PILLAR then Some m
          else if t = TILE_MONSTER then
            do {
              m' \<leftarrow> moveMonster m (i, col player) (i + 1, col player);
              scanUp m' player (i - 1)
            }
          else scanUp m player (i - 1)
        }
      else Some m)"
  by pat_completeness auto
termination
  by (relation "measure (\<lambda>(m, player, i). nat (i + 1))") auto

function scanDown :: "grid \<Rightarrow> int \<Rightarrow> Player \<Rightarrow> int \<Rightarrow> grid option" where
  "scanDown m maxRow player i =
     (if i < maxRow then
        do {
          t \<leftarrow> cell m (i, col player);
          if t = TILE_PILLAR then Some m
          else if t = TILE_MONSTER then
            do {
              m' \<leftarrow> moveMonster m (i, col player) (i - 1, col player);
              scanDown m' maxRow player (i + 1)
            }
          else scanDown m maxRow player (i + 1)
        }
      else Some m)"
  by pat_completeness auto
termination
  by (relation "measure (\<lambda>(m, maxRow, player, i). nat (maxRow - i))") auto

text \<open>
  \<^verbatim>\<open>doMonsterAttack\<close>: the four loops one after the other on the same map, then the test of
  the player's cell. The result is the returned flag and the map as the call leaves it.
\<close>

definition doMonsterAttack :: "grid \<Rightarrow> int \<Rightarrow> int \<Rightarrow> Player \<Rightarrow> (bool \<times> grid) option" where
  "doMonsterAttack m maxRow maxCol player =
     do {
       m1 \<leftarrow> scanLeft m player (col player - 1);
       m2 \<leftarrow> scanRight m1 maxCol player (col player + 1);
       m3 \<leftarrow> scanUp m2 player (row player - 1);
       m4 \<leftarrow> scanDown m3 maxRow player (row player + 1);
       t \<leftarrow> cell m4 (row player, col player);
       Some (t = TILE_MONSTER, m4)
     }"

declare scanLeft.simps [simp del] scanRight.simps [simp del]
  scanUp.simps [simp del] scanDown.simps [simp del]

subsection \<open>Rays\<close>

text \<open>
  The cells each loop visits when nothing stops it, nearest to the player first: the
  four rays, in the order the loops run.
\<close>

definition rayLeft :: "Player \<Rightarrow> (int \<times> int) list" where
  "rayLeft player = map (\<lambda>j. (row player, j)) (rev [0..col player - 1])"

definition rayRight :: "int \<Rightarrow> Player \<Rightarrow> (int \<times> int) list" where
  "rayRight maxCol player = map (\<lambda>j. (row player, j)) [col player + 1..maxCol - 1]"

definition rayUp :: "Player \<Rightarrow> (int \<times> int) list" where
  "rayUp player = map (\<lambda>i. (i, col player)) (rev [0..row player - 1])"

definition rayDown :: "int \<Rightarrow> Player \<Rightarrow> (int \<times> int) list" where
  "rayDown maxRow player = map (\<lambda>i. (i, col player)) [row player + 1..maxRow - 1]"

definition rays :: "int \<Rightarrow> int \<Rightarrow> Player \<Rightarrow> (int \<times> int) list list" where
  "rays maxRow maxCol player =
     [rayLeft player, rayRight maxCol player, rayUp player, rayDown maxRow player]"

text \<open>
  Line of sight: no pillar on the first \<open>k + 1\<close> cells of the ray, that is, none between
  the player and the ray's cell number \<open>k\<close>, that cell included.
\<close>

definition clear_upto :: "grid \<Rightarrow> (int \<times> int) list \<Rightarrow> nat \<Rightarrow> bool" where
  "clear_upto m ray k \<longleftrightarrow> list_all (\<lambda>c. cell m c \<noteq> Some TILE_PILLAR) (take (Suc k) ray)"

text \<open>A monster stands next to the player on the ray.\<close>

definition adjacent_monster :: "grid \<Rightarrow> (int \<times> int) list \<Rightarrow> bool" where
  "adjacent_monster m ray \<longleftrightarrow> ray \<noteq> [] \<and> cell m (hd ray) = Some TILE_MONSTER"

text \<open>
  One loop, over the list of the cells it visits: \<open>prev\<close> is the cell one step nearer the
  player than the head of the list. The four loops are instances of it.
\<close>

fun scanCells :: "grid \<Rightarrow> int \<times> int \<Rightarrow> (int \<times> int) list \<Rightarrow> grid option" where
  "scanCells m prev [] = Some m"
| "scanCells m prev (p # ps) =
     do {
       t \<leftarrow> cell m p;
       if t = TILE_PILLAR then Some m
       else if t = TILE_MONSTER then
         do {
           m' \<leftarrow> moveMonster m p prev;
           scanCells m' p ps
         }
       else scanCells m p ps
     }"

fun scanAll :: "grid \<Rightarrow> int \<times> int \<Rightarrow> (int \<times> int) list list \<Rightarrow> grid option" where
  "scanAll m pos [] = Some m"
| "scanAll m pos (r # rs) = do { m' \<leftarrow> scanCells m pos r; scanAll m' pos rs }"

section \<open>Vocabulary of the statements\<close>

text \<open>
  The decimal text of an integer as a level file writes it, and the white space that
  separates two tokens of the file. They say what a file declares, independently of the
  code that reads it.
\<close>

fun dec_nat :: "nat \<Rightarrow> string" where
  "dec_nat n = (if n < 10 then [char_of (48 + n)]
                else dec_nat (n div 10) @ [char_of (48 + n mod 10)])"

definition decimal :: "int \<Rightarrow> string" where
  "decimal i = (if i < 0 then CHR ''-'' # dec_nat (nat (- i)) else dec_nat (nat i))"

declare dec_nat.simps [simp del]

definition gap :: "string \<Rightarrow> bool" where
  "gap w \<longleftrightarrow> w \<noteq> [] \<and> list_all isspace w"

text \<open>
  The monster on cell \<open>k\<close> of ray \<open>d\<close> finds a monster on the cell it is about to move
  into: a monster stands on the player's cell when the ray is scanned (it was there at
  the call, or it came from a ray scanned earlier, where it stood next to the player),
  and monsters fill every cell of the ray between the player and cell \<open>k\<close>.
\<close>

definition monster_ahead :: "grid \<Rightarrow> int \<Rightarrow> int \<Rightarrow> Player \<Rightarrow> nat \<Rightarrow> nat \<Rightarrow> bool" where
  "monster_ahead m maxRow maxCol player d k \<longleftrightarrow>
     (cell m (row player, col player) = Some TILE_MONSTER \<or>
      list_ex (adjacent_monster m) (take d (rays maxRow maxCol player))) \<and>
     list_all (\<lambda>c. cell m c = Some TILE_MONSTER) (take k (rays maxRow maxCol player ! d))"

section \<open>Basic facts about cell access\<close>

lemmas tile_defs =
  TILE_OPEN_def TILE_PLAYER_def TILE_TREASURE_def TILE_AMULET_def
  TILE_MONSTER_def TILE_PILLAR_def TILE_DOOR_def TILE_EXIT_def

lemma cell_Some_iff_wf:
  assumes "wf_grid m maxRow maxCol"
  shows "cell m p \<noteq> None \<longleftrightarrow> in_bounds maxRow maxCol p"
proof (cases p)
  case (Pair i j)
  show ?thesis
  proof (cases "0 \<le> i \<and> i < maxRow")
    case True
    then have "nat i < length m" using assms by (auto simp: wf_grid_def)
    then have "m ! nat i \<in> set m" by simp
    then have "int (length (m ! nat i)) = maxCol"
      using assms by (auto simp: wf_grid_def list_all_iff)
    then show ?thesis using True assms Pair by (auto simp: in_bounds_def wf_grid_def)
  next
    case False
    then show ?thesis using assms Pair by (auto simp: in_bounds_def wf_grid_def)
  qed
qed

lemma store_Some_iff: "(\<exists>m'. store m p v = Some m') \<longleftrightarrow> cell m p \<noteq> None"
  by (cases p) auto

lemma store_total: "cell m p \<noteq> None \<Longrightarrow> \<exists>m'. store m p v = Some m'"
  by (simp add: store_Some_iff)

lemma store_shape:
  assumes "store m p v = Some m'"
  shows "map length m' = map length m"
proof (cases p)
  case (Pair i j)
  then have "m' = m[nat i := (m ! nat i)[nat j := v]]" and "nat i < length m"
    using assms by (auto split: if_splits)
  then show ?thesis by (simp add: map_update list_update_same_conv)
qed

lemma wf_grid_shape: "map length m' = map length m \<Longrightarrow> wf_grid m' R C = wf_grid m R C"
proof -
  assume h: "map length m' = map length m"
  then have "length m' = length m" by (metis length_map)
  moreover have "list_all (\<lambda>r. int (length r) = C) m' = list_all (\<lambda>r. int (length r) = C) m"
  proof -
    have "list_all (\<lambda>r. int (length r) = C) m' = list_all (\<lambda>n. int n = C) (map length m')"
      by (simp add: list_all_iff)
    also have "\<dots> = list_all (\<lambda>n. int n = C) (map length m)" using h by simp
    also have "\<dots> = list_all (\<lambda>r. int (length r) = C) m" by (simp add: list_all_iff)
    finally show ?thesis .
  qed
  ultimately show ?thesis by (simp add: wf_grid_def)
qed

lemma cell_shape:
  assumes "map length m' = map length m"
  shows "cell m' p = None \<longleftrightarrow> cell m p = None"
proof (cases p)
  case (Pair i j)
  have len: "length m' = length m" using assms by (metis length_map)
  have "\<And>k. k < length m \<Longrightarrow> length (m' ! k) = length (m ! k)"
    using assms len by (metis nth_map)
  then show ?thesis using Pair len by auto
qed

lemma cell_store:
  assumes "store m q v = Some m'"
  shows "cell m' p = (if p = q then Some v else cell m p)"
proof (cases p, cases q)
  fix i j i' j'
  assume p: "p = (i, j)" and q: "q = (i', j')"
  from assms q have r: "0 \<le> i'" "i' < int (length m)" "0 \<le> j'" "j' < int (length (m ! nat i'))"
    and m': "m' = m[nat i' := (m ! nat i')[nat j' := v]]"
    by (auto split: if_splits)
  show ?thesis
  proof (cases "0 \<le> i \<and> i < int (length m)")
    case False
    then show ?thesis using p q r m' by auto
  next
    case True
    show ?thesis
    proof (cases "i = i'")
      case True
      then show ?thesis using p q r m' by (auto simp: nth_list_update)
    next
      case False
      then have "nat i \<noteq> nat i'" using True r by auto
      then show ?thesis using p q r m' True False by (auto simp: nth_list_update)
    qed
  qed
qed

declare cell.simps [simp del]
declare store.simps [simp del]

subsection \<open>The cells holding the player marker\<close>

lemma set_player_cells: "set (player_cells m) = {q. cell m q = Some TILE_PLAYER}"
proof -
  have 1: "set (player_cells m) =
     {(int a, int b) | a b. a < length m \<and> b < length (m ! a) \<and> m ! a ! b = TILE_PLAYER}"
    by (auto simp: player_cells_def)
  have 2: "{q. cell m q = Some TILE_PLAYER} =
     {(int a, int b) | a b. a < length m \<and> b < length (m ! a) \<and> m ! a ! b = TILE_PLAYER}"
  proof (rule set_eqI)
    fix q :: "int \<times> int"
    obtain i j where q: "q = (i, j)" by (cases q)
    show "q \<in> {q. cell m q = Some TILE_PLAYER} \<longleftrightarrow>
       q \<in> {(int a, int b) | a b. a < length m \<and> b < length (m ! a) \<and> m ! a ! b = TILE_PLAYER}"
    proof
      assume "q \<in> {q. cell m q = Some TILE_PLAYER}"
      then have c: "0 \<le> i" "i < int (length m)" "0 \<le> j" "j < int (length (m ! nat i))"
        "m ! nat i ! nat j = TILE_PLAYER"
        using q by (auto simp: cell.simps split: if_splits)
      then have "q = (int (nat i), int (nat j))" "nat i < length m"
        "nat j < length (m ! nat i)" using q by auto
      then show "q \<in> {(int a, int b) | a b. a < length m \<and> b < length (m ! a) \<and> m ! a ! b = TILE_PLAYER}"
        using c(5) by blast
    next
      assume "q \<in> {(int a, int b) | a b. a < length m \<and> b < length (m ! a) \<and> m ! a ! b = TILE_PLAYER}"
      then show "q \<in> {q. cell m q = Some TILE_PLAYER}" by (auto simp: cell.simps)
    qed
  qed
  show ?thesis using 1 2 by simp
qed

lemma distinct_concat_map:
  assumes "distinct xs" and "\<And>x. x \<in> set xs \<Longrightarrow> distinct (f x)"
    and "\<And>x y. x \<in> set xs \<Longrightarrow> y \<in> set xs \<Longrightarrow> x \<noteq> y \<Longrightarrow> set (f x) \<inter> set (f y) = {}"
  shows "distinct (concat (map f xs))"
  using assms
proof (induction xs)
  case Nil
  then show ?case by simp
next
  case (Cons a xs)
  have "distinct (concat (map f xs))" using Cons by simp
  moreover have "distinct (f a)" using Cons.prems by simp
  moreover have "set (f a) \<inter> set (concat (map f xs)) = {}"
  proof -
    have "\<And>y. y \<in> set xs \<Longrightarrow> set (f a) \<inter> set (f y) = {}"
      using Cons.prems(1) Cons.prems(3) [of a] by auto
    then show ?thesis by auto
  qed
  ultimately show ?case by simp
qed

lemma distinct_player_cells: "distinct (player_cells m)"
  unfolding player_cells_def
proof (rule distinct_concat_map)
  show "distinct [0..<length m]" by simp
next
  fix i
  have "inj_on (\<lambda>j. (int i, int j)) (set (filter (\<lambda>j. m ! i ! j = TILE_PLAYER) [0..<length (m ! i)]))"
    by (simp add: inj_on_def)
  then show "distinct (map (\<lambda>j. (int i, int j))
           (filter (\<lambda>j. m ! i ! j = TILE_PLAYER) [0..<length (m ! i)]))"
    by (simp add: distinct_map)
next
  fix x y :: nat
  assume "x \<noteq> y"
  then show "set (map (\<lambda>j. (int x, int j)) (filter (\<lambda>j. m ! x ! j = TILE_PLAYER) [0..<length (m ! x)])) \<inter>
     set (map (\<lambda>j. (int y, int j)) (filter (\<lambda>j. m ! y ! j = TILE_PLAYER) [0..<length (m ! y)])) = {}"
    by auto
qed

lemma player_cells_single:
  "player_cells m = [p] \<longleftrightarrow> (\<forall>q. cell m q = Some TILE_PLAYER \<longleftrightarrow> q = p)"
proof
  assume "player_cells m = [p]"
  then have "set (player_cells m) = {p}" by simp
  then show "\<forall>q. cell m q = Some TILE_PLAYER \<longleftrightarrow> q = p"
    unfolding set_player_cells by blast
next
  assume "\<forall>q. cell m q = Some TILE_PLAYER \<longleftrightarrow> q = p"
  then have "set (player_cells m) = {p}" unfolding set_player_cells by blast
  moreover have "distinct (player_cells m)" by (rule distinct_player_cells)
  ultimately show "player_cells m = [p]"
  proof (cases "player_cells m")
    case Nil
    then show ?thesis using \<open>set (player_cells m) = {p}\<close> by simp
  next
    case (Cons x xs)
    then have x: "x = p" using \<open>set (player_cells m) = {p}\<close> by auto
    have "xs = []"
    proof (cases xs)
      case Nil
      then show ?thesis .
    next
      case (Cons y ys)
      then have "y = p" using \<open>set (player_cells m) = {p}\<close> \<open>player_cells m = x # xs\<close> by auto
      then show ?thesis
        using \<open>distinct (player_cells m)\<close> \<open>player_cells m = x # xs\<close> Cons x by simp
    qed
    then show ?thesis using Cons x by simp
  qed
qed


section \<open>Properties of createMap\<close>

lemma createMap_nonneg:
  assumes "0 \<le> maxRow" "0 \<le> maxCol"
  shows "createMap maxRow maxCol =
           Inr (Some (replicate (nat maxRow) (replicate (nat maxCol) TILE_OPEN)))"
  using assms by (simp add: createMap_def)

lemma wf_grid_replicate:
  assumes "0 \<le> maxRow" "0 \<le> maxCol"
  shows "wf_grid (replicate (nat maxRow) (replicate (nat maxCol) v)) maxRow maxCol"
  using assms by (simp add: wf_grid_def list_all_iff)

lemma cell_replicate:
  assumes "in_bounds maxRow maxCol p"
  shows "cell (replicate (nat maxRow) (replicate (nat maxCol) v)) p = Some v"
proof (cases p)
  case (Pair i j)
  then have "0 \<le> i" "i < maxRow" "0 \<le> j" "j < maxCol"
    using assms by (simp_all add: in_bounds_def)
  then show ?thesis using Pair by (simp add: cell.simps)
qed

text \<open>
  C4 (createMap on non-positive dimensions). The claim has \<^verbatim>\<open>createMap\<close> return an
  empty or null result whenever a dimension is not positive, and \<^verbatim>\<open>loadLevel\<close> tests
  the result against \<^verbatim>\<open>nullptr\<close>. The code has no such branch: a negative row count
  makes the first \<^verbatim>\<open>new\<close> throw, zero rows give a non-null array of no rows, and zero
  columns give non-null rows of no cells. For positive dimensions the result is the
  grid of open tiles.
\<close>

theorem createMap_nonpositive_not_null:
  "createMap (- 1) 3 = Inl BadArrayNewLength \<and>
   createMap 3 (- 1) = Inl BadArrayNewLength \<and>
   createMap 0 3 = Inr (Some []) \<and>
   createMap 3 0 = Inr (Some [[], [], []]) \<and>
   createMap 2 3 = Inr (Some [[TILE_OPEN, TILE_OPEN, TILE_OPEN], [TILE_OPEN, TILE_OPEN, TILE_OPEN]])"
  by (simp add: createMap_def numeral_2_eq_2 numeral_3_eq_3)

section \<open>Properties of doPlayerMove\<close>

lemma relocate_ok:
  assumes "cell m org \<noteq> None" "cell m (nr, nc) \<noteq> None" and org: "org = (row p, col p)"
  shows "\<exists>m'. relocate st m p nr nc = Some (st, m', p\<lparr>row := nr, col := nc\<rparr>) \<and>
          (\<forall>q. cell m' q = (if q = (nr, nc) then Some TILE_PLAYER
                           else if q = org then Some TILE_OPEN else cell m q))"
proof -
  from assms(1) obtain m1 where m1: "store m (row p, col p) TILE_OPEN = Some m1"
    using store_total org by blast
  have "cell m1 (nr, nc) \<noteq> None"
    using assms(2) by (simp add: cell_shape [OF store_shape [OF m1]])
  then obtain m2 where m2: "store m1 (nr, nc) TILE_PLAYER = Some m2"
    using store_total by blast
  have "\<forall>q. cell m2 q = (if q = (nr, nc) then Some TILE_PLAYER
                           else if q = org then Some TILE_OPEN else cell m q)"
    by (simp add: cell_store [OF m2] cell_store [OF m1] org)
  then show ?thesis using m1 m2 by (simp add: relocate_def)
qed

lemma doPlayerMove_cases:
  assumes pl: "cell m (row player, col player) \<noteq> None"
    and wf: "wf_grid m maxRow maxCol"
    and tr: "treasure player < INT_MAX"
  shows "doPlayerMove m maxRow maxCol player nextRow nextCol = Some (STATUS_STAY, m, player) \<or>
         (\<exists>st m' player'. relocation_status st \<and>
            doPlayerMove m maxRow maxCol player nextRow nextCol = Some (st, m', player') \<and>
            row player' = nextRow \<and> col player' = nextCol \<and>
            (\<forall>q. cell m' q = (if q = (nextRow, nextCol) then Some TILE_PLAYER
                           else if q = (row player, col player) then Some TILE_OPEN
                           else cell m q)))"
proof (cases "in_bounds maxRow maxCol (nextRow, nextCol)")
  case False
  then show ?thesis by (auto simp: doPlayerMove_def in_bounds_def)
next
  case True
  then have nx: "cell m (nextRow, nextCol) \<noteq> None"
    using cell_Some_iff_wf [OF wf] by simp
  then obtain t where t: "cell m (nextRow, nextCol) = Some t" by blast
  have ib: "\<not> (nextRow < 0 \<or> nextRow \<ge> maxRow)" "\<not> (nextCol < 0 \<or> nextCol \<ge> maxCol)"
    using True by (auto simp: in_bounds_def)
  let ?p1 = "player\<lparr>treasure := treasure player + 1\<rparr>"
  have r1: "\<And>st. \<exists>m'. relocate st m ?p1 nextRow nextCol =
                Some (st, m', ?p1\<lparr>row := nextRow, col := nextCol\<rparr>) \<and>
          (\<forall>q. cell m' q = (if q = (nextRow, nextCol) then Some TILE_PLAYER
                           else if q = (row player, col player) then Some TILE_OPEN else cell m q))"
    by (rule relocate_ok [OF pl nx]) simp
  have r0: "\<And>st. \<exists>m'. relocate st m player nextRow nextCol =
                Some (st, m', player\<lparr>row := nextRow, col := nextCol\<rparr>) \<and>
          (\<forall>q. cell m' q = (if q = (nextRow, nextCol) then Some TILE_PLAYER
                           else if q = (row player, col player) then Some TILE_OPEN else cell m q))"
    by (rule relocate_ok [OF pl nx]) simp
  consider (blocked) "t = TILE_PILLAR \<or> t = TILE_MONSTER"
    | (tre) "\<not> (t = TILE_PILLAR \<or> t = TILE_MONSTER)" "t = TILE_TREASURE"
    | (amu) "\<not> (t = TILE_PILLAR \<or> t = TILE_MONSTER)" "t \<noteq> TILE_TREASURE" "t = TILE_AMULET"
    | (door) "\<not> (t = TILE_PILLAR \<or> t = TILE_MONSTER)" "t \<noteq> TILE_TREASURE" "t \<noteq> TILE_AMULET"
        "t = TILE_DOOR"
    | (exit) "\<not> (t = TILE_PILLAR \<or> t = TILE_MONSTER)" "t \<noteq> TILE_TREASURE" "t \<noteq> TILE_AMULET"
        "t \<noteq> TILE_DOOR" "t = TILE_EXIT"
    | (other) "\<not> (t = TILE_PILLAR \<or> t = TILE_MONSTER)" "t \<noteq> TILE_TREASURE" "t \<noteq> TILE_AMULET"
        "t \<noteq> TILE_DOOR" "t \<noteq> TILE_EXIT"
    by blast
  then show ?thesis
  proof cases
    case blocked
    then show ?thesis using ib t by (simp add: doPlayerMove_def)
  next
    case tre
    have "doPlayerMove m maxRow maxCol player nextRow nextCol =
            relocate STATUS_TREASURE m ?p1 nextRow nextCol"
      using ib t tre tr by (simp add: doPlayerMove_def)
    then show ?thesis using r1 [of STATUS_TREASURE]
      by (auto simp: relocation_status_def)
  next
    case amu
    have "doPlayerMove m maxRow maxCol player nextRow nextCol =
            relocate STATUS_AMULET m player nextRow nextCol"
      using ib t amu by (simp add: doPlayerMove_def)
    then show ?thesis using r0 [of STATUS_AMULET]
      by (auto simp: relocation_status_def)
  next
    case door
    have "doPlayerMove m maxRow maxCol player nextRow nextCol =
            relocate STATUS_LEAVE m player nextRow nextCol"
      using ib t door by (simp add: doPlayerMove_def)
    then show ?thesis using r0 [of STATUS_LEAVE]
      by (auto simp: relocation_status_def)
  next
    case exit
    show ?thesis
    proof (cases "treasure player \<ge> 1")
      case True
      have "doPlayerMove m maxRow maxCol player nextRow nextCol =
            relocate STATUS_ESCAPE m player nextRow nextCol"
        using ib t exit True by (simp add: doPlayerMove_def)
      then show ?thesis using r0 [of STATUS_ESCAPE]
        by (auto simp: relocation_status_def)
    next
      case False
      then show ?thesis using ib t exit by (simp add: doPlayerMove_def)
    qed
  next
    case other
    have "doPlayerMove m maxRow maxCol player nextRow nextCol =
            relocate STATUS_MOVE m player nextRow nextCol"
      using ib t other by (simp add: doPlayerMove_def)
    then show ?thesis using r0 [of STATUS_MOVE]
      by (auto simp: relocation_status_def)
  qed
qed

text \<open>
  C6 (blocked moves). If the candidate cell is outside \<open>[0, maxRow) \<times> [0, maxCol)\<close>, or
  is inside and holds a pillar or a monster, \<^verbatim>\<open>doPlayerMove\<close> returns \<open>STATUS_STAY\<close> and
  hands back the very same map and player: no cell, no coordinate and no treasure count
  changes.
\<close>

theorem doPlayerMove_blocked:
  assumes "\<not> in_bounds maxRow maxCol (nextRow, nextCol) \<or>
           (in_bounds maxRow maxCol (nextRow, nextCol) \<and>
            (cell m (nextRow, nextCol) = Some TILE_PILLAR \<or>
             cell m (nextRow, nextCol) = Some TILE_MONSTER))"
  shows "doPlayerMove m maxRow maxCol player nextRow nextCol = Some (STATUS_STAY, m, player)"
  using assms by (auto simp: doPlayerMove_def in_bounds_def)

theorem doPlayerMove_blocked_witness:
  "(\<not> in_bounds 3 3 (- 1, 1) \<and>
    doPlayerMove [''-#-'', ''Mo-'', ''--T''] 3 3 \<lparr>row = 0, col = 1, treasure = 0\<rparr> (- 1) 1 =
      Some (STATUS_STAY, [''-#-'', ''Mo-'', ''--T''], \<lparr>row = 0, col = 1, treasure = 0\<rparr>)) \<and>
   (in_bounds 3 3 (0, 1) \<and> cell [''-#-'', ''Mo-'', ''--T''] (0, 1) = Some TILE_PILLAR \<and>
    doPlayerMove [''-#-'', ''Mo-'', ''--T''] 3 3 \<lparr>row = 1, col = 1, treasure = 0\<rparr> 0 1 =
      Some (STATUS_STAY, [''-#-'', ''Mo-'', ''--T''], \<lparr>row = 1, col = 1, treasure = 0\<rparr>)) \<and>
   (in_bounds 3 3 (1, 0) \<and> cell [''-#-'', ''Mo-'', ''--T''] (1, 0) = Some TILE_MONSTER \<and>
    doPlayerMove [''-#-'', ''Mo-'', ''--T''] 3 3 \<lparr>row = 1, col = 1, treasure = 0\<rparr> 1 0 =
      Some (STATUS_STAY, [''-#-'', ''Mo-'', ''--T''], \<lparr>row = 1, col = 1, treasure = 0\<rparr>))"
proof -
  let ?g = "[''-#-'', ''Mo-'', ''--T'']"
  have a: "\<not> in_bounds 3 3 (- 1, 1)" by (simp add: in_bounds_def)
  have b: "in_bounds 3 3 (0, 1)" "cell ?g (0, 1) = Some TILE_PILLAR"
    by (simp_all add: in_bounds_def cell.simps tile_defs)
  have c: "in_bounds 3 3 (1, 0)" "cell ?g (1, 0) = Some TILE_MONSTER"
    by (simp_all add: in_bounds_def cell.simps tile_defs)
  show ?thesis
    using a b c
      doPlayerMove_blocked [of 3 3 "- 1" 1 ?g "\<lparr>row = 0, col = 1, treasure = 0\<rparr>"]
      doPlayerMove_blocked [of 3 3 0 1 ?g "\<lparr>row = 1, col = 1, treasure = 0\<rparr>"]
      doPlayerMove_blocked [of 3 3 1 0 ?g "\<lparr>row = 1, col = 1, treasure = 0\<rparr>"]
    by simp
qed

text \<open>
  C5 (one player marker after a relocation). In a map whose only player marker is at
  the player's position, with the storage of the declared extent, \<^verbatim>\<open>doPlayerMove\<close>
  returns; and when its outcome is one of the relocating ones (\<open>STATUS_MOVE\<close>,
  \<open>STATUS_TREASURE\<close>, \<open>STATUS_AMULET\<close>, \<open>STATUS_LEAVE\<close>, \<open>STATUS_ESCAPE\<close>), the player is at
  the candidate cell and that cell is the only one holding the player marker. The
  bound on the treasure count keeps \<^verbatim>\<open>player.treasure++\<close> inside \<^verbatim>\<open>int\<close>.
\<close>

theorem doPlayerMove_unique_marker:
  assumes one: "player_cells m = [(row player, col player)]"
    and wf: "wf_grid m maxRow maxCol"
    and tr: "treasure player < INT_MAX"
  shows "\<exists>st m' player'.
           doPlayerMove m maxRow maxCol player nextRow nextCol = Some (st, m', player') \<and>
           (relocation_status st \<longrightarrow>
              row player' = nextRow \<and> col player' = nextCol \<and>
              player_cells m' = [(row player', col player')])"
proof -
  have one': "\<forall>q. cell m q = Some TILE_PLAYER \<longleftrightarrow> q = (row player, col player)"
    using one unfolding player_cells_single .
  have pl: "cell m (row player, col player) \<noteq> None" using one' by blast
  have op: "TILE_OPEN \<noteq> TILE_PLAYER" by (simp add: tile_defs)
  from doPlayerMove_cases [OF pl wf tr, of nextRow nextCol]
  show ?thesis
  proof
    assume "doPlayerMove m maxRow maxCol player nextRow nextCol = Some (STATUS_STAY, m, player)"
    then show ?thesis by (simp add: relocation_status_def)
  next
    assume "\<exists>st m' player'. relocation_status st \<and>
            doPlayerMove m maxRow maxCol player nextRow nextCol = Some (st, m', player') \<and>
            row player' = nextRow \<and> col player' = nextCol \<and>
            (\<forall>q. cell m' q = (if q = (nextRow, nextCol) then Some TILE_PLAYER
                           else if q = (row player, col player) then Some TILE_OPEN
                           else cell m q))"
    then obtain st m' player' where st: "relocation_status st"
      and dm: "doPlayerMove m maxRow maxCol player nextRow nextCol = Some (st, m', player')"
      and pos: "row player' = nextRow" "col player' = nextCol"
      and cm: "\<forall>q. cell m' q = (if q = (nextRow, nextCol) then Some TILE_PLAYER
                           else if q = (row player, col player) then Some TILE_OPEN
                           else cell m q)" by blast
    have "\<forall>q. cell m' q = Some TILE_PLAYER \<longleftrightarrow> q = (nextRow, nextCol)"
      using cm one' op by (simp del: split_paired_All)
    then have "player_cells m' = [(nextRow, nextCol)]" unfolding player_cells_single .
    then show ?thesis using dm pos by simp
  qed
qed

theorem doPlayerMove_unique_marker_witness:
  "player_cells [''-#-'', ''Mo-'', ''-T-''] = [(row \<lparr>row = 1, col = 1, treasure = 0\<rparr>,
                                                  col \<lparr>row = 1, col = 1, treasure = 0\<rparr>)] \<and>
   wf_grid [''-#-'', ''Mo-'', ''-T-''] 3 3 \<and>
   treasure \<lparr>row = 1, col = 1, treasure = 0\<rparr> < INT_MAX \<and>
   doPlayerMove [''-#-'', ''Mo-'', ''-T-''] 3 3 \<lparr>row = 1, col = 1, treasure = 0\<rparr> 2 1 =
     Some (STATUS_TREASURE, [''-#-'', ''M--'', ''-o-''], \<lparr>row = 2, col = 1, treasure = 1\<rparr>) \<and>
   relocation_status STATUS_TREASURE \<and>
   player_cells [''-#-'', ''M--'', ''-o-''] = [(2, 1)]"
proof -
  let ?g = "[''-#-'', ''Mo-'', ''-T-'']"
  let ?p = "\<lparr>row = 1, col = 1, treasure = 0\<rparr>"
  have h1: "player_cells ?g = [(row ?p, col ?p)]" by code_simp
  have h2: "wf_grid ?g 3 3" by (simp add: wf_grid_def)
  have h3: "treasure ?p < INT_MAX" by (simp add: INT_MAX_def)
  have ev: "doPlayerMove ?g 3 3 ?p 2 1 =
     Some (STATUS_TREASURE, [''-#-'', ''M--'', ''-o-''], \<lparr>row = 2, col = 1, treasure = 1\<rparr>)"
    by (simp add: doPlayerMove_def relocate_def cell.simps store.simps tile_defs INT_MAX_def)
  have st: "relocation_status STATUS_TREASURE" by (simp add: relocation_status_def)
  from doPlayerMove_unique_marker [OF h1 h2 h3, of 2 1]
  have "player_cells [''-#-'', ''M--'', ''-o-''] = [(2, 1)]"
    unfolding ev using st by simp
  then show ?thesis using h1 h2 h3 ev st by simp
qed

text \<open>
  C7 (the exit). The candidate cell is in bounds and holds the exit, and the player
  stands on a player-marker cell. With no treasure the move is refused: \<open>STATUS_STAY\<close>,
  same map, same player. With at least one treasure the outcome is \<open>STATUS_ESCAPE\<close>: the
  origin cell becomes open, the exit cell becomes the player marker, every other cell is
  as before, and the player's position is the candidate cell.
\<close>

theorem doPlayerMove_exit:
  assumes nx: "in_bounds maxRow maxCol (nextRow, nextCol)"
    and ex: "cell m (nextRow, nextCol) = Some TILE_EXIT"
    and pl: "cell m (row player, col player) = Some TILE_PLAYER"
  shows "(treasure player = 0 \<longrightarrow>
           doPlayerMove m maxRow maxCol player nextRow nextCol = Some (STATUS_STAY, m, player)) \<and>
         (treasure player \<ge> 1 \<longrightarrow>
           (\<exists>m'. doPlayerMove m maxRow maxCol player nextRow nextCol =
                   Some (STATUS_ESCAPE, m', player\<lparr>row := nextRow, col := nextCol\<rparr>) \<and>
                 cell m' (row player, col player) = Some TILE_OPEN \<and>
                 cell m' (nextRow, nextCol) = Some TILE_PLAYER \<and>
                 (\<forall>q. q \<noteq> (row player, col player) \<and> q \<noteq> (nextRow, nextCol) \<longrightarrow>
                        cell m' q = cell m q)))"
proof -
  have ib: "\<not> (nextRow < 0 \<or> nextRow \<ge> maxRow)" "\<not> (nextCol < 0 \<or> nextCol \<ge> maxCol)"
    using nx by (auto simp: in_bounds_def)
  have ne: "TILE_EXIT \<noteq> TILE_PILLAR" "TILE_EXIT \<noteq> TILE_MONSTER" "TILE_EXIT \<noteq> TILE_TREASURE"
    "TILE_EXIT \<noteq> TILE_AMULET" "TILE_EXIT \<noteq> TILE_DOOR"
    by (simp_all add: tile_defs)
  have stay: "treasure player = 0 \<longrightarrow>
           doPlayerMove m maxRow maxCol player nextRow nextCol = Some (STATUS_STAY, m, player)"
    using ib ex ne by (simp add: doPlayerMove_def)
  have dm: "treasure player \<ge> 1 \<Longrightarrow> doPlayerMove m maxRow maxCol player nextRow nextCol =
          relocate STATUS_ESCAPE m player nextRow nextCol"
    using ib ex ne by (simp add: doPlayerMove_def)
  have neq: "(row player, col player) \<noteq> (nextRow, nextCol)"
    using ex pl by (auto simp: tile_defs)
  have "cell m (row player, col player) \<noteq> None" "cell m (nextRow, nextCol) \<noteq> None"
    using ex pl by simp_all
  from relocate_ok [OF this, of player STATUS_ESCAPE]
  obtain m' where "relocate STATUS_ESCAPE m player nextRow nextCol =
      Some (STATUS_ESCAPE, m', player\<lparr>row := nextRow, col := nextCol\<rparr>)"
     and "\<forall>q. cell m' q = (if q = (nextRow, nextCol) then Some TILE_PLAYER
                           else if q = (row player, col player) then Some TILE_OPEN else cell m q)"
    by auto
  then have "treasure player \<ge> 1 \<longrightarrow>
           (\<exists>m'. doPlayerMove m maxRow maxCol player nextRow nextCol =
                   Some (STATUS_ESCAPE, m', player\<lparr>row := nextRow, col := nextCol\<rparr>) \<and>
                 cell m' (row player, col player) = Some TILE_OPEN \<and>
                 cell m' (nextRow, nextCol) = Some TILE_PLAYER \<and>
                 (\<forall>q. q \<noteq> (row player, col player) \<and> q \<noteq> (nextRow, nextCol) \<longrightarrow>
                        cell m' q = cell m q))"
    using dm neq by (auto simp del: split_paired_All)
  then show ?thesis using stay by blast
qed

theorem doPlayerMove_exit_witness:
  "in_bounds 1 3 (0, 2) \<and> cell [''-oE''] (0, 2) = Some TILE_EXIT \<and>
   cell [''-oE''] (0, 1) = Some TILE_PLAYER \<and>
   doPlayerMove [''-oE''] 1 3 \<lparr>row = 0, col = 1, treasure = 0\<rparr> 0 2 =
     Some (STATUS_STAY, [''-oE''], \<lparr>row = 0, col = 1, treasure = 0\<rparr>) \<and>
   doPlayerMove [''-oE''] 1 3 \<lparr>row = 0, col = 1, treasure = 2\<rparr> 0 2 =
     Some (STATUS_ESCAPE, [''--o''], \<lparr>row = 0, col = 2, treasure = 2\<rparr>)"
proof -
  let ?g = "[''-oE'']"
  have h1: "in_bounds 1 3 (0, 2)" by (simp add: in_bounds_def)
  have h2: "cell ?g (0, 2) = Some TILE_EXIT" by (simp add: cell.simps tile_defs)
  have h3: "cell ?g (row \<lparr>row = 0, col = 1, treasure = 0\<rparr>, col \<lparr>row = 0, col = 1, treasure = 0\<rparr>)
              = Some TILE_PLAYER"
    by (simp add: cell.simps tile_defs)
  have ev: "doPlayerMove ?g 1 3 \<lparr>row = 0, col = 1, treasure = 2\<rparr> 0 2 =
     Some (STATUS_ESCAPE, [''--o''], \<lparr>row = 0, col = 2, treasure = 2\<rparr>)"
    by (simp add: doPlayerMove_def relocate_def cell.simps store.simps tile_defs)
  from doPlayerMove_exit [OF h1 h2 h3]
  have "doPlayerMove ?g 1 3 \<lparr>row = 0, col = 1, treasure = 0\<rparr> 0 2 =
     Some (STATUS_STAY, ?g, \<lparr>row = 0, col = 1, treasure = 0\<rparr>)" by simp
  then show ?thesis using h1 h2 h3 ev by simp
qed

section \<open>Properties of resizeMap\<close>

lemma findCols_unique:
  assumes "\<forall>q. cell m q = Some (CHR ''o'') \<longleftrightarrow> q = (r, c)"
    and "wf_grid m maxRow maxCol" and "0 \<le> i" "i < maxRow" "0 \<le> j"
  shows "findCols m maxCol i j cur = Some (if i = r \<and> j \<le> c then (r, c) else cur)"
  using assms
proof (induction m maxCol i j cur rule: findCols.induct)
  case (1 m maxCol i j cur)
  have rc: "in_bounds maxRow maxCol (r, c)"
    using 1(2) cell_Some_iff_wf [OF 1(3), of "(r, c)"] by auto
  show ?case
  proof (cases "j < maxCol")
    case False
    then show ?thesis using rc by (simp add: findCols.simps [of m maxCol i j] in_bounds_def)
  next
    case True
    then have "in_bounds maxRow maxCol (i, j)" using 1 by (simp add: in_bounds_def)
    then obtain t where t: "cell m (i, j) = Some t"
      using cell_Some_iff_wf [OF 1(3), of "(i, j)"] by auto
    have tt: "t = CHR ''o'' \<longleftrightarrow> (i, j) = (r, c)" using t 1(2) by (metis option.inject)
    have "findCols m maxCol i (j + 1) (if t = CHR ''o'' then (i, j) else cur) =
       Some (if i = r \<and> j + 1 \<le> c then (r, c) else (if t = CHR ''o'' then (i, j) else cur))"
      using 1(1) [OF True t] 1(2-5) 1(6) by simp
    then show ?thesis using True t tt by (auto simp: findCols.simps [of m maxCol i j])
  qed
qed

lemma findRows_unique:
  assumes "\<forall>q. cell m q = Some (CHR ''o'') \<longleftrightarrow> q = (r, c)"
    and "wf_grid m maxRow maxCol" and "0 \<le> i"
  shows "findRows m maxRow maxCol i cur = Some (if i \<le> r then (r, c) else cur)"
  using assms
proof (induction m maxRow maxCol i cur rule: findRows.induct)
  case (1 m maxRow maxCol i cur)
  have rc: "in_bounds maxRow maxCol (r, c)"
    using 1(2) cell_Some_iff_wf [OF 1(3), of "(r, c)"] by auto
  show ?case
  proof (cases "i < maxRow")
    case False
    then show ?thesis using rc by (simp add: findRows.simps [of m maxRow maxCol i] in_bounds_def)
  next
    case True
    have fc: "findCols m maxCol i 0 cur = Some (if i = r \<and> 0 \<le> c then (r, c) else cur)"
      using findCols_unique [OF 1(2) 1(3) 1(4) True, of 0] by simp
    have "findRows m maxRow maxCol (i + 1) (if i = r \<and> 0 \<le> c then (r, c) else cur) =
        Some (if i + 1 \<le> r then (r, c) else (if i = r \<and> 0 \<le> c then (r, c) else cur))"
      using 1(1) [OF True fc] 1(2-4) by simp
    then show ?thesis using True fc rc
      by (auto simp: findRows.simps [of m maxRow maxCol i] in_bounds_def)
  qed
qed

lemma mod_in_bounds:
  assumes "0 < maxRow" "0 < maxCol"
  shows "in_bounds maxRow maxCol (i mod maxRow, j mod maxCol)"
  using assms by (simp add: in_bounds_def)

lemma tileCols_spec:
  assumes "wf_grid m maxRow maxCol" "0 < maxRow" "0 < maxCol"
    and "wf_grid resize tempRow tempCol" "0 \<le> i" "i < tempRow" "0 \<le> j"
  shows "\<exists>res. tileCols m resize maxRow maxCol tempCol i j = Some res \<and>
           map length res = map length resize \<and>
           (\<forall>q. cell res q = (if fst q = i \<and> j \<le> snd q \<and> snd q < tempCol
                              then cell m (i mod maxRow, snd q mod maxCol) else cell resize q))"
  using assms
proof (induction m resize maxRow maxCol tempCol i j rule: tileCols.induct)
  case (1 m resize maxRow maxCol tempCol i j)
  show ?case
  proof (cases "j < tempCol")
    case False
    then show ?thesis by (auto simp: tileCols.simps [of m resize maxRow maxCol tempCol i j])
  next
    case True
    obtain t where t: "cell m (i mod maxRow, j mod maxCol) = Some t"
      using cell_Some_iff_wf [OF 1(2)] mod_in_bounds [OF 1(3) 1(4)] by blast
    have "in_bounds tempRow tempCol (i, j)" using True 1 by (simp add: in_bounds_def)
    then obtain r1 where r1: "store resize (i, j) t = Some r1"
      using cell_Some_iff_wf [OF 1(5)] store_total by blast
    have sh: "map length r1 = map length resize" by (rule store_shape [OF r1])
    have wf1: "wf_grid r1 tempRow tempCol" using 1(5) wf_grid_shape [OF sh] by simp
    from 1(1) [OF True t r1 1(2) 1(3) 1(4) wf1 1(6) 1(7)] 1(8)
    obtain res where res: "tileCols m r1 maxRow maxCol tempCol i (j + 1) = Some res"
      "map length res = map length r1"
      "\<forall>q. cell res q = (if fst q = i \<and> j + 1 \<le> snd q \<and> snd q < tempCol
                              then cell m (i mod maxRow, snd q mod maxCol) else cell r1 q)"
      by auto
    have "tileCols m resize maxRow maxCol tempCol i j = Some res"
      using True t r1 res(1) by (simp add: tileCols.simps [of m resize maxRow maxCol tempCol i j])
    moreover have "map length res = map length resize" using res(2) sh by simp
    moreover have "\<forall>q. cell res q = (if fst q = i \<and> j \<le> snd q \<and> snd q < tempCol
                              then cell m (i mod maxRow, snd q mod maxCol) else cell resize q)"
    proof
      fix q :: "int \<times> int"
      show "cell res q = (if fst q = i \<and> j \<le> snd q \<and> snd q < tempCol
                              then cell m (i mod maxRow, snd q mod maxCol) else cell resize q)"
      proof (cases "q = (i, j)")
        case True
        then show ?thesis
          using res(3) [rule_format, of q] cell_store [OF r1, of q] t \<open>j < tempCol\<close> by simp
      next
        case False
        then have "fst q = i \<and> j \<le> snd q \<longleftrightarrow> fst q = i \<and> j + 1 \<le> snd q"
          by (cases q) auto
        then show ?thesis
          using res(3) [rule_format, of q] cell_store [OF r1, of q] False by auto
      qed
    qed
    ultimately show ?thesis by blast
  qed
qed

lemma tileRows_spec:
  assumes "wf_grid m maxRow maxCol" "0 < maxRow" "0 < maxCol"
    and "wf_grid resize tempRow tempCol" "0 \<le> i"
  shows "\<exists>res. tileRows m resize maxRow maxCol tempRow tempCol i = Some res \<and>
           map length res = map length resize \<and>
           (\<forall>q. cell res q = (if i \<le> fst q \<and> fst q < tempRow \<and> 0 \<le> snd q \<and> snd q < tempCol
                              then cell m (fst q mod maxRow, snd q mod maxCol) else cell resize q))"
  using assms
proof (induction m resize maxRow maxCol tempRow tempCol i rule: tileRows.induct)
  case (1 m resize maxRow maxCol tempRow tempCol i)
  show ?case
  proof (cases "i < tempRow")
    case False
    then show ?thesis
      by (auto simp: tileRows.simps [of m resize maxRow maxCol tempRow tempCol i])
  next
    case True
    from tileCols_spec [OF 1(2) 1(3) 1(4) 1(5) 1(6) True, of 0]
    obtain r1 where r1: "tileCols m resize maxRow maxCol tempCol i 0 = Some r1"
      "map length r1 = map length resize"
      "\<forall>q. cell r1 q = (if fst q = i \<and> 0 \<le> snd q \<and> snd q < tempCol
                              then cell m (i mod maxRow, snd q mod maxCol) else cell resize q)"
      by auto
    have wf1: "wf_grid r1 tempRow tempCol" using 1(5) wf_grid_shape [OF r1(2)] by simp
    from 1(1) [OF True r1(1) 1(2) 1(3) 1(4) wf1] 1(6)
    obtain res where res: "tileRows m r1 maxRow maxCol tempRow tempCol (i + 1) = Some res"
      "map length res = map length r1"
      "\<forall>q. cell res q = (if i + 1 \<le> fst q \<and> fst q < tempRow \<and> 0 \<le> snd q \<and> snd q < tempCol
                              then cell m (fst q mod maxRow, snd q mod maxCol) else cell r1 q)"
      by auto
    have "tileRows m resize maxRow maxCol tempRow tempCol i = Some res"
      using True r1(1) res(1)
      by (simp add: tileRows.simps [of m resize maxRow maxCol tempRow tempCol i])
    moreover have "map length res = map length resize" using res(2) r1(2) by simp
    moreover have "\<forall>q. cell res q =
        (if i \<le> fst q \<and> fst q < tempRow \<and> 0 \<le> snd q \<and> snd q < tempCol
         then cell m (fst q mod maxRow, snd q mod maxCol) else cell resize q)"
    proof
      fix q :: "int \<times> int"
      show "cell res q =
        (if i \<le> fst q \<and> fst q < tempRow \<and> 0 \<le> snd q \<and> snd q < tempCol
         then cell m (fst q mod maxRow, snd q mod maxCol) else cell resize q)"
      proof (cases "fst q = i")
        case True
        then show ?thesis
          using res(3) [rule_format, of q] r1(3) [rule_format, of q] \<open>i < tempRow\<close> by simp
      next
        case False
        then have "i \<le> fst q \<longleftrightarrow> i + 1 \<le> fst q" by auto
        then show ?thesis
          using res(3) [rule_format, of q] r1(3) [rule_format, of q] False by simp
      qed
    qed
    ultimately show ?thesis by blast
  qed
qed

text \<open>
  C2 (resizeMap doubles and tiles). For a map of the declared extent whose only player
  marker is at \<open>(r, c)\<close>, \<^verbatim>\<open>resizeMap\<close> returns a map of \<open>2 * maxRow\<close> rows and
  \<open>2 * maxCol\<close> columns together with the doubled dimensions. Every cell \<open>(i, j)\<close> of the
  new map holds what the old map held at \<open>(i mod maxRow, j mod maxCol)\<close>, the old
  marker cell counting as open, except that cell \<open>(r, c)\<close> holds the player marker; so
  \<open>(r, c)\<close> is the only marker cell of the new map. The bounds keep \<^verbatim>\<open>2*maxRow\<close> and
  \<^verbatim>\<open>2*maxCol\<close> inside \<^verbatim>\<open>int\<close>.
\<close>

theorem resizeMap_tiles:
  assumes wf: "wf_grid m maxRow maxCol" and one: "player_cells m = [(r, c)]"
    and rng: "2 * maxRow \<le> INT_MAX" "2 * maxCol \<le> INT_MAX"
  shows "\<exists>new. resizeMap m maxRow maxCol = Some (Inr (new, 2 * maxRow, 2 * maxCol)) \<and>
           wf_grid new (2 * maxRow) (2 * maxCol) \<and>
           (\<forall>i j. in_bounds (2 * maxRow) (2 * maxCol) (i, j) \<longrightarrow>
              cell new (i, j) =
                (if (i, j) = (r, c) then Some TILE_PLAYER
                 else if (i mod maxRow, j mod maxCol) = (r, c) then Some TILE_OPEN
                 else cell m (i mod maxRow, j mod maxCol))) \<and>
           player_cells new = [(r, c)]"
proof -
  let ?R = "2 * maxRow" and ?C = "2 * maxCol"
  have one': "\<forall>q. cell m q = Some (CHR ''o'') \<longleftrightarrow> q = (r, c)"
    using one unfolding player_cells_single TILE_PLAYER_def .
  have rc: "in_bounds maxRow maxCol (r, c)"
    using one' cell_Some_iff_wf [OF wf, of "(r, c)"] by auto
  then have pos: "0 < maxRow" "0 < maxCol" and rc': "in_bounds ?R ?C (r, c)"
    by (auto simp: in_bounds_def)
  have noov: "\<not> (?R < INT_MIN \<or> INT_MAX < ?R \<or> ?C < INT_MIN \<or> INT_MAX < ?C)"
    using rng pos by (simp add: INT_MIN_def)
  have nothrow: "\<not> (?R < 0 \<or> (0 < ?R \<and> ?C < 0))" using pos by simp
  have fr: "findRows m maxRow maxCol 0 (0, 0) = Some (r, c)"
    using findRows_unique [OF one' wf, of 0 "(0, 0)"] rc by (simp add: in_bounds_def)
  obtain m1 where m1: "store m (r, c) TILE_OPEN = Some m1"
    using store_total [of m "(r, c)"] cell_Some_iff_wf [OF wf] rc by blast
  have wf1: "wf_grid m1 maxRow maxCol"
    using wf wf_grid_shape [OF store_shape [OF m1]] by simp
  let ?fresh = "replicate (nat ?R) (replicate (nat ?C) (CHR 0x00))"
  have wff: "wf_grid ?fresh ?R ?C" using pos by (intro wf_grid_replicate) simp_all
  from tileRows_spec [OF wf1 pos wff, of 0]
  obtain res where res: "tileRows m1 ?fresh maxRow maxCol ?R ?C 0 = Some res"
    "map length res = map length ?fresh"
    "\<forall>q. cell res q = (if 0 \<le> fst q \<and> fst q < ?R \<and> 0 \<le> snd q \<and> snd q < ?C
                       then cell m1 (fst q mod maxRow, snd q mod maxCol) else cell ?fresh q)"
    by auto
  have wfr: "wf_grid res ?R ?C" using wff wf_grid_shape [OF res(2)] by simp
  obtain new where new: "store res (r, c) (CHR ''o'') = Some new"
    using store_total [of res "(r, c)"] cell_Some_iff_wf [OF wfr] rc' by blast
  have wfn: "wf_grid new ?R ?C" using wfr wf_grid_shape [OF store_shape [OF new]] by simp
  have run: "resizeMap m maxRow maxCol = Some (Inr (new, ?R, ?C))"
    using noov nothrow fr m1 res(1) new by (simp add: resizeMap_def Let_def)
  have cells: "cell new (i, j) =
                (if (i, j) = (r, c) then Some TILE_PLAYER
                 else if (i mod maxRow, j mod maxCol) = (r, c) then Some TILE_OPEN
                 else cell m (i mod maxRow, j mod maxCol))"
    if "in_bounds ?R ?C (i, j)" for i j
  proof -
    have "cell res (i, j) = cell m1 (i mod maxRow, j mod maxCol)"
      using res(3) [rule_format, of "(i, j)"] that by (simp add: in_bounds_def)
    then show ?thesis
      using cell_store [OF new, of "(i, j)"] cell_store [OF m1, of "(i mod maxRow, j mod maxCol)"]
      by (simp add: TILE_PLAYER_def)
  qed
  have "cell new q = Some TILE_PLAYER \<longleftrightarrow> q = (r, c)" for q
  proof (cases "in_bounds ?R ?C q")
    case False
    then have "cell new q = None" using cell_Some_iff_wf [OF wfn, of q] by simp
    then show ?thesis using False rc' by auto
  next
    case True
    obtain i j where q: "q = (i, j)" by (cases q)
    show ?thesis
    proof (cases "q = (r, c)")
      case True
      then show ?thesis using cells [of r c] rc' by simp
    next
      case False
      have "cell m (i mod maxRow, j mod maxCol) = Some TILE_PLAYER \<longleftrightarrow>
              (i mod maxRow, j mod maxCol) = (r, c)"
        using one' by (simp add: TILE_PLAYER_def del: split_paired_All)
      then show ?thesis using cells [of i j] True q False
        by (auto simp: tile_defs)
    qed
  qed
  then have "player_cells new = [(r, c)]" unfolding player_cells_single by blast
  then show ?thesis using run wfn cells by blast
qed

theorem resizeMap_tiles_witness:
  "wf_grid [''-#'', ''To''] 2 2 \<and> player_cells [''-#'', ''To''] = [(1, 1)] \<and>
   2 * 2 \<le> INT_MAX \<and>
   resizeMap [''-#'', ''To''] 2 2 =
     Some (Inr ([''-#-#'', ''ToT-'', ''-#-#'', ''T-T-''], 4, 4)) \<and>
   player_cells [''-#-#'', ''ToT-'', ''-#-#'', ''T-T-''] = [(1, 1)] \<and>
   cell [''-#-#'', ''ToT-'', ''-#-#'', ''T-T-''] (3, 3) = Some TILE_OPEN \<and>
   cell [''-#-#'', ''ToT-'', ''-#-#'', ''T-T-''] (2, 3) = cell [''-#'', ''To''] (0, 1)"
proof -
  let ?g = "[''-#'', ''To'']"
  have h1: "wf_grid ?g 2 2" by (simp add: wf_grid_def)
  have h2: "player_cells ?g = [(1, 1)]" by code_simp
  have h3: "2 * 2 \<le> INT_MAX" by (simp add: INT_MAX_def)
  have ev: "resizeMap ?g 2 2 = Some (Inr ([''-#-#'', ''ToT-'', ''-#-#'', ''T-T-''], 4, 4))"
    by code_simp
  have ib: "in_bounds (2 * 2) (2 * 2) (3, 3)" "in_bounds (2 * 2) (2 * 2) (2, 3)"
    by (simp_all add: in_bounds_def)
  from resizeMap_tiles [OF h1 h2 h3 h3]
  have "player_cells [''-#-#'', ''ToT-'', ''-#-#'', ''T-T-''] = [(1, 1)] \<and>
        cell [''-#-#'', ''ToT-'', ''-#-#'', ''T-T-''] (3, 3) = Some TILE_OPEN \<and>
        cell [''-#-#'', ''ToT-'', ''-#-#'', ''T-T-''] (2, 3) = cell [''-#'', ''To''] (0, 1)"
    unfolding ev using ib by auto
  then show ?thesis using h1 h2 h3 ev by simp
qed

section \<open>Properties of loadLevel\<close>

lemma readHeader_player:
  assumes "readHeader ifs maxRow maxCol player = (R, C, player', s)"
  shows "treasure player' = treasure player"
  using assms by (auto simp: readHeader_def Let_def split: prod.splits)

lemma loadCols_spec:
  assumes "wf_grid g maxRow maxCol" "0 \<le> i" "i < maxRow" "0 \<le> j"
  shows "\<exists>g' s'. loadCols ifs g maxCol player i j = Some (g', s') \<and>
           map length g' = map length g \<and>
           (i = row player \<and> j \<le> col player \<and> col player < maxCol \<longrightarrow>
              cell g' (row player, col player) = Some TILE_PLAYER) \<and>
           (\<forall>q. fst q \<noteq> i \<or> snd q < j \<longrightarrow> cell g' q = cell g q)"
  using assms
proof (induction ifs g maxCol player i j rule: loadCols.induct)
  case (1 ifs g maxCol player i j)
  show ?case
  proof (cases "j < maxCol")
    case False
    then show ?thesis by (auto simp: loadCols.simps [of ifs g maxCol player i j])
  next
    case True
    have ib: "in_bounds maxRow maxCol (i, j)" using True 1 by (simp add: in_bounds_def)
    then obtain old where old: "cell g (i, j) = Some old"
      using cell_Some_iff_wf [OF 1(2)] by blast
    let ?t = "fst (extract_char ifs old)" and ?s = "snd (extract_char ifs old)"
    obtain m1 where m1: "store g (i, j) ?t = Some m1"
      using store_total [of g "(i, j)"] old by auto
    have sh1: "map length m1 = map length g" by (rule store_shape [OF m1])
    have c1: "cell m1 (i, j) \<noteq> None" using cell_store [OF m1, of "(i, j)"] by simp
    have "\<exists>m2. (if i = row player \<and> j = col player then store m1 (i, j) TILE_PLAYER
                 else Some m1) = Some m2"
    proof (cases "i = row player \<and> j = col player")
      case True
      show ?thesis unfolding if_P [OF True] by (rule store_total [OF c1])
    next
      case False
      show ?thesis unfolding if_not_P [OF False] by blast
    qed
    then obtain m2 where m2: "(if i = row player \<and> j = col player
                 then store m1 (i, j) TILE_PLAYER else Some m1) = Some m2" by blast
    have sh2: "map length m2 = map length g"
      using m2 sh1 store_shape [of m1 "(i, j)" TILE_PLAYER m2] by (auto split: if_splits)
    have wf2: "wf_grid m2 maxRow maxCol" using 1(2) wf_grid_shape [OF sh2] by simp
    have c2: "cell m2 q = (if q = (i, j) then
                  (if i = row player \<and> j = col player then Some TILE_PLAYER else Some ?t)
                else cell g q)" for q
      using m2 cell_store [OF m1, of q] cell_store [of m1 "(i, j)" TILE_PLAYER m2 q]
      by (auto split: if_splits)
    from 1(1) [OF True old m1 m2 wf2 1(3) 1(4)] 1(5)
    obtain g' s' where g': "loadCols ?s m2 maxCol player i (j + 1) = Some (g', s')"
      "map length g' = map length m2"
      "i = row player \<and> j + 1 \<le> col player \<and> col player < maxCol \<longrightarrow>
              cell g' (row player, col player) = Some TILE_PLAYER"
      "\<forall>q. fst q \<noteq> i \<or> snd q < j + 1 \<longrightarrow> cell g' q = cell m2 q"
      by auto
    have run: "loadCols ifs g maxCol player i j = Some (g', s')"
      using True old m1 m2 g'(1) by (simp add: loadCols.simps [of ifs g maxCol player i j])
    have a: "i = row player \<and> j \<le> col player \<and> col player < maxCol \<longrightarrow>
              cell g' (row player, col player) = Some TILE_PLAYER"
    proof (cases "j = col player")
      case True
      then show ?thesis using g'(4) [rule_format, of "(i, j)"] c2 [of "(i, j)"] by auto
    next
      case False
      then show ?thesis using g'(3) by auto
    qed
    have b: "\<forall>q. fst q \<noteq> i \<or> snd q < j \<longrightarrow> cell g' q = cell g q"
    proof (intro allI impI)
      fix q :: "int \<times> int"
      assume h: "fst q \<noteq> i \<or> snd q < j"
      then have "q \<noteq> (i, j)" by auto
      moreover have "fst q \<noteq> i \<or> snd q < j + 1" using h by auto
      ultimately show "cell g' q = cell g q"
        using g'(4) [rule_format, of q] c2 [of q] by simp
    qed
    show ?thesis using run g'(2) sh2 a b by simp
  qed
qed

lemma loadRows_spec:
  assumes "wf_grid g maxRow maxCol" "0 \<le> i"
  shows "\<exists>g' s'. loadRows ifs g maxRow maxCol player i = Some (g', s') \<and>
           map length g' = map length g \<and>
           (i \<le> row player \<and> in_bounds maxRow maxCol (row player, col player) \<longrightarrow>
              cell g' (row player, col player) = Some TILE_PLAYER) \<and>
           (\<forall>q. fst q < i \<longrightarrow> cell g' q = cell g q)"
  using assms
proof (induction ifs g maxRow maxCol player i rule: loadRows.induct)
  case (1 ifs g maxRow maxCol player i)
  show ?case
  proof (cases "i < maxRow")
    case False
    then show ?thesis
      by (auto simp: loadRows.simps [of ifs g maxRow maxCol player i] in_bounds_def)
  next
    case True
    from loadCols_spec [OF 1(2) 1(3) True, of 0 ifs player]
    obtain m1 s1 where m1: "loadCols ifs g maxCol player i 0 = Some (m1, s1)"
      "map length m1 = map length g"
      "i = row player \<and> 0 \<le> col player \<and> col player < maxCol \<longrightarrow>
              cell m1 (row player, col player) = Some TILE_PLAYER"
      "\<forall>q. fst q \<noteq> i \<or> snd q < 0 \<longrightarrow> cell m1 q = cell g q"
      by auto
    have wf1: "wf_grid m1 maxRow maxCol" using 1(2) wf_grid_shape [OF m1(2)] by simp
    from 1(1) [OF True m1(1) refl wf1] 1(3)
    obtain g' s' where g': "loadRows s1 m1 maxRow maxCol player (i + 1) = Some (g', s')"
      "map length g' = map length m1"
      "i + 1 \<le> row player \<and> in_bounds maxRow maxCol (row player, col player) \<longrightarrow>
              cell g' (row player, col player) = Some TILE_PLAYER"
      "\<forall>q. fst q < i + 1 \<longrightarrow> cell g' q = cell m1 q"
      by auto
    have run: "loadRows ifs g maxRow maxCol player i = Some (g', s')"
      using True m1(1) g'(1) by (simp add: loadRows.simps [of ifs g maxRow maxCol player i])
    have a: "i \<le> row player \<and> in_bounds maxRow maxCol (row player, col player) \<longrightarrow>
              cell g' (row player, col player) = Some TILE_PLAYER"
    proof (cases "i = row player")
      case True
      then show ?thesis
        using g'(4) [rule_format, of "(row player, col player)"] m1(3)
        by (auto simp: in_bounds_def)
    next
      case False
      then show ?thesis using g'(3) by auto
    qed
    have b: "\<forall>q. fst q < i \<longrightarrow> cell g' q = cell g q"
      using g'(4) m1(4) by auto
    show ?thesis using run g'(2) m1(2) a b by simp
  qed
qed

lemma loadCols_plain:
  assumes "\<not> in_bounds maxRow maxCol (row player, col player)" "0 \<le> i" "i < maxRow" "0 \<le> j"
  shows "loadCols ifs g maxCol player i j = readCols ifs g maxCol i j"
  using assms
proof (induction ifs g maxCol player i j rule: loadCols.induct)
  case (1 ifs g maxCol player i j)
  show ?case
  proof (cases "j < maxCol")
    case False
    then show ?thesis
      by (simp add: loadCols.simps [of ifs g maxCol player i j] readCols.simps [of ifs g maxCol i j])
  next
    case True
    then have nf: "\<not> (i = row player \<and> j = col player)"
      using 1(2-5) by (auto simp: in_bounds_def)
    show ?thesis
    proof (cases "cell g (i, j)")
      case None
      then show ?thesis using True
        by (simp add: loadCols.simps [of ifs g maxCol player i j]
            readCols.simps [of ifs g maxCol i j])
    next
      case (Some old)
      show ?thesis
      proof (cases "store g (i, j) (fst (extract_char ifs old))")
        case None
        then show ?thesis using True Some
          by (simp add: loadCols.simps [of ifs g maxCol player i j]
              readCols.simps [of ifs g maxCol i j])
      next
        case (Some m1)
        have m2: "(if i = row player \<and> j = col player then store m1 (i, j) TILE_PLAYER
                 else Some m1) = Some m1" by (rule if_not_P [OF nf])
        have "loadCols (snd (extract_char ifs old)) m1 maxCol player i (j + 1) =
              readCols (snd (extract_char ifs old)) m1 maxCol i (j + 1)"
          using 1(1) [OF True \<open>cell g (i, j) = Some old\<close> Some m2 1(2) 1(3) 1(4)] 1(5) by simp
        then show ?thesis using True \<open>cell g (i, j) = Some old\<close> Some
          by (simp add: loadCols.simps [of ifs g maxCol player i j]
              readCols.simps [of ifs g maxCol i j] if_not_P [OF nf])
      qed
    qed
  qed
qed

lemma loadRows_plain:
  assumes "\<not> in_bounds maxRow maxCol (row player, col player)" "0 \<le> i"
  shows "loadRows ifs g maxRow maxCol player i = readRows ifs g maxRow maxCol i"
  using assms
proof (induction ifs g maxRow maxCol player i rule: loadRows.induct)
  case (1 ifs g maxRow maxCol player i)
  show ?case
  proof (cases "i < maxRow")
    case False
    then show ?thesis
      by (simp add: loadRows.simps [of ifs g maxRow maxCol player i]
          readRows.simps [of ifs g maxRow maxCol i])
  next
    case True
    have eq: "loadCols ifs g maxCol player i 0 = readCols ifs g maxCol i 0"
      using loadCols_plain [OF 1(2) 1(3) True, of 0] by simp
    show ?thesis
    proof (cases "readCols ifs g maxCol i 0")
      case None
      then show ?thesis using True eq
        by (simp add: loadRows.simps [of ifs g maxRow maxCol player i]
            readRows.simps [of ifs g maxRow maxCol i])
    next
      case (Some a)
      obtain m1 s1 where a: "a = (m1, s1)" by (cases a)
      have "loadRows s1 m1 maxRow maxCol player (i + 1) = readRows s1 m1 maxRow maxCol (i + 1)"
        using 1(1) [OF True _ refl 1(2)] eq Some a 1(3) by simp
      then show ?thesis using True eq Some a
        by (simp add: loadRows.simps [of ifs g maxRow maxCol player i]
            readRows.simps [of ifs g maxRow maxCol i])
    qed
  qed
qed

subsection \<open>Reading the decimal header\<close>

lemma isdigit_digit: "(d::nat) < 10 \<Longrightarrow> isdigit (char_of (48 + d))"
  by (simp add: isdigit_def)

lemma digit_val: "(d::nat) < 10 \<Longrightarrow> int (of_char (char_of (48 + d))) - 48 = int d"
  by simp

lemma dec_nat_digits: "list_all isdigit (dec_nat n) \<and> dec_nat n \<noteq> []"
proof (induction n rule: dec_nat.induct)
  case (1 n)
  show ?case
  proof (cases "n < 10")
    case True
    then show ?thesis by (simp add: dec_nat.simps [of n] isdigit_digit)
  next
    case False
    have "n mod 10 < 10" by simp
    then have "isdigit (char_of (48 + n mod 10))" by (rule isdigit_digit)
    then show ?thesis using False 1 by (simp add: dec_nat.simps [of n])
  qed
qed

lemma digits_val_snoc:
  "digits_val (ds @ [ch]) = 10 * digits_val ds + (int (of_char ch) - 48)"
  by (simp add: digits_val_def)

lemma digits_val_dec_nat: "digits_val (dec_nat n) = int n"
proof (induction n rule: dec_nat.induct)
  case (1 n)
  show ?case
  proof (cases "n < 10")
    case True
    then show ?thesis using digit_val [of n]
      by (simp add: dec_nat.simps [of n] digits_val_def)
  next
    case False
    have m: "n mod 10 < 10" by simp
    have "digits_val (dec_nat n) = 10 * int (n div 10) + int (n mod 10)"
      using False 1 digit_val [OF m]
      by (simp add: dec_nat.simps [of n] digits_val_snoc)
    also have "\<dots> = int n" by presburger
    finally show ?thesis .
  qed
qed

lemma isdigit_plain:
  "isdigit ch \<Longrightarrow> \<not> isspace ch \<and> ch \<noteq> CHR ''-'' \<and> ch \<noteq> CHR ''+''"
  by (auto simp: isdigit_def isspace_def)

lemma takeWhile_digits:
  assumes "list_all isdigit ds" "rest = [] \<or> \<not> isdigit (hd rest)"
  shows "takeWhile isdigit (ds @ rest) = ds" "dropWhile isdigit (ds @ rest) = rest"
proof -
  have a: "\<And>x. x \<in> set ds \<Longrightarrow> isdigit x" using assms(1) by (simp add: list_all_iff)
  have t: "takeWhile isdigit rest = []" and d: "dropWhile isdigit rest = rest"
    using assms(2) by (cases rest; auto)+
  show "takeWhile isdigit (ds @ rest) = ds" using a t by (simp add: takeWhile_append2)
  show "dropWhile isdigit (ds @ rest) = rest" using a d by (simp add: dropWhile_append2)
qed

lemma dropWhile_spaces:
  assumes "list_all isspace ws" "\<not> isspace ch"
  shows "dropWhile isspace (ws @ ch # rest) = ch # rest"
proof -
  have "\<And>x. x \<in> set ws \<Longrightarrow> isspace x" using assms(1) by (simp add: list_all_iff)
  then show ?thesis using assms(2) by (simp add: dropWhile_append2)
qed

lemma not_space_minus: "\<not> isspace (CHR ''-'')"
  by (simp add: isspace_def)

lemma extract_int_decimal:
  assumes lo: "INT_MIN \<le> i" and hi: "i \<le> INT_MAX"
    and ws: "list_all isspace ws"
    and rest: "rest = [] \<or> \<not> isdigit (hd rest)"
  shows "extract_int (Some (ws @ decimal i @ rest)) old = (i, Some rest)"
proof -
  define n where "n = nat \<bar>i\<bar>"
  obtain c cs where ds: "dec_nat n = c # cs" using dec_nat_digits [of n] by (cases "dec_nat n") auto
  have cd: "isdigit c" using dec_nat_digits [of n] ds by simp
  have alld: "list_all isdigit (c # cs)" using dec_nat_digits [of n] ds by simp
  have val: "digits_val (c # cs) = \<bar>i\<bar>" using digits_val_dec_nat [of n] ds n_def by simp
  note p = isdigit_plain [OF cd]
  show ?thesis
  proof (cases "i < 0")
    case True
    have dec: "decimal i = CHR ''-'' # c # cs" using True ds n_def by (simp add: decimal_def)
    have dw: "dropWhile isspace (ws @ decimal i @ rest) = CHR ''-'' # (c # cs) @ rest"
      unfolding dec using dropWhile_spaces [OF ws not_space_minus] by simp
    have tw: "takeWhile isdigit ((c # cs) @ rest) = c # cs"
      and dd: "dropWhile isdigit ((c # cs) @ rest) = rest"
      using takeWhile_digits [OF alld rest] by blast+
    have v: "- digits_val (c # cs) = i" using val True by simp
    show ?thesis
      unfolding extract_int_def option.case dw list.case Let_def if_P [OF disjI1 [OF refl]] tw dd v
      using lo hi by simp
  next
    case False
    have dec: "decimal i = c # cs" using False ds n_def by (simp add: decimal_def)
    have dw: "dropWhile isspace (ws @ decimal i @ rest) = c # cs @ rest"
      unfolding dec using dropWhile_spaces [OF ws p [THEN conjunct1]] by simp
    have nb: "\<not> (c = CHR ''-'' \<or> c = CHR ''+'')" using p by simp
    have tw: "takeWhile isdigit (c # cs @ rest) = c # cs"
      and dd: "dropWhile isdigit (c # cs @ rest) = rest"
      using takeWhile_digits [OF alld rest] by simp_all
    have v: "digits_val (c # cs) = i" using val False by simp
    have nm: "c \<noteq> CHR ''-''" using p by simp
    show ?thesis
      unfolding extract_int_def option.case dw list.case Let_def if_not_P [OF nb] tw dd
        if_not_P [OF nm] v
      using lo hi by simp
  qed
qed

lemma gap_rest:
  assumes "gap w"
  shows "w @ xs = [] \<or> \<not> isdigit (hd (w @ xs))" and "list_all isspace w"
proof -
  obtain c cs where w: "w = c # cs" using assms by (cases w) (auto simp: gap_def)
  then have "isspace c" using assms by (simp add: gap_def)
  then have "\<not> isdigit c" using isdigit_plain by blast
  then show "w @ xs = [] \<or> \<not> isdigit (hd (w @ xs))" using w by simp
  show "list_all isspace w" using assms by (simp add: gap_def)
qed

lemma readHeader_text:
  assumes ct: "content = w0 @ decimal R @ w1 @ decimal C @ w2 @ decimal pr @ w3 @ decimal pc @ rest"
    and sp: "list_all isspace w0" "gap w1" "gap w2" "gap w3"
    and rest: "rest = [] \<or> \<not> isdigit (hd rest)"
    and rng: "INT_MIN \<le> R" "R \<le> INT_MAX" "INT_MIN \<le> C" "C \<le> INT_MAX"
      "INT_MIN \<le> pr" "pr \<le> INT_MAX" "INT_MIN \<le> pc" "pc \<le> INT_MAX"
  shows "readHeader (Some content) maxRow maxCol player =
           (R, C, player\<lparr>row := pr, col := pc\<rparr>, Some rest)"
proof -
  let ?t3 = "w3 @ decimal pc @ rest"
  let ?t2 = "w2 @ decimal pr @ ?t3"
  let ?t1 = "w1 @ decimal C @ ?t2"
  have e1: "extract_int (Some content) maxRow = (R, Some ?t1)"
    unfolding ct by (rule extract_int_decimal [OF rng(1,2) sp(1) gap_rest(1) [OF sp(2)]])
  have e2: "extract_int (Some ?t1) maxCol = (C, Some ?t2)"
    by (rule extract_int_decimal [OF rng(3,4) gap_rest(2) [OF sp(2)] gap_rest(1) [OF sp(3)]])
  have e3: "extract_int (Some ?t2) (row player) = (pr, Some ?t3)"
    by (rule extract_int_decimal [OF rng(5,6) gap_rest(2) [OF sp(3)] gap_rest(1) [OF sp(4)]])
  have e4: "extract_int (Some ?t3) (col player) = (pc, Some rest)"
    by (rule extract_int_decimal [OF rng(7,8) gap_rest(2) [OF sp(4)] rest])
  show ?thesis by (simp add: readHeader_def e1 e2 e3 e4)
qed

lemma createMap_returns:
  assumes "0 \<le> maxRow" "maxRow = 0 \<or> 0 \<le> maxCol"
  shows "createMap maxRow maxCol =
           Inr (Some (replicate (nat maxRow) (replicate (nat maxCol) TILE_OPEN)))"
    and "wf_grid (replicate (nat maxRow) (replicate (nat maxCol) TILE_OPEN)) maxRow maxCol"
  using assms by (auto simp: createMap_def wf_grid_def list_all_iff)

subsection \<open>The claims about loadLevel\<close>

text \<open>
  C3 (loading a well-formed level), as the code has it. The file consists of the decimal
  texts of the row count \<open>R\<close>, the column count \<open>C\<close> and the player's row \<open>pr\<close> and column
  \<open>pc\<close>, separated by white space, followed by anything that does not continue the last
  number; the four numbers fit \<^verbatim>\<open>int\<close> and \<open>(pr, pc)\<close> lies inside \<open>R \<times> C\<close>. Then \<^verbatim>\<open>loadLevel\<close>
  returns a non-null map of \<open>R\<close> rows and \<open>C\<close> columns, sets \<^verbatim>\<open>maxRow\<close> and \<^verbatim>\<open>maxCol\<close> to \<open>R\<close> and
  \<open>C\<close>, and returns the caller's player with \<open>row\<close> and \<open>col\<close> set to \<open>pr\<close> and \<open>pc\<close>; the cell
  \<open>(pr, pc)\<close> holds the player marker whatever tokens the file has. The treasure count is
  not reset to zero: the returned player differs from the caller's only in \<open>row\<close> and
  \<open>col\<close>.
\<close>

theorem loadLevel_well_formed:
  assumes ct: "content = w0 @ decimal R @ w1 @ decimal C @ w2 @ decimal pr @ w3 @ decimal pc @ rest"
    and sp: "list_all isspace w0" "gap w1" "gap w2" "gap w3"
    and rest: "rest = [] \<or> \<not> isdigit (hd rest)"
    and rng: "R \<le> INT_MAX" "C \<le> INT_MAX"
    and ib: "in_bounds R C (pr, pc)"
  shows "\<exists>g. loadLevel (Some content) maxRow maxCol player =
               Some (Inr (Some g, R, C, player\<lparr>row := pr, col := pc\<rparr>)) \<and>
           wf_grid g R C \<and>
           cell g (pr, pc) = Some TILE_PLAYER"
proof -
  let ?p = "player\<lparr>row := pr, col := pc\<rparr>"
  have b: "0 \<le> pr" "pr < R" "0 \<le> pc" "pc < C" using ib by (simp_all add: in_bounds_def)
  have r: "INT_MIN \<le> R" "INT_MIN \<le> C" "INT_MIN \<le> pr" "pr \<le> INT_MAX"
    "INT_MIN \<le> pc" "pc \<le> INT_MAX"
    using b rng by (simp_all add: INT_MIN_def)
  have hd: "readHeader (Some content) maxRow maxCol player = (R, C, ?p, Some rest)"
    by (rule readHeader_text [OF ct sp rest r(1) rng(1) r(2) rng(2) r(3) r(4) r(5) r(6)])
  have pos: "0 \<le> R" "R = 0 \<or> 0 \<le> C" using b by simp_all
  let ?g0 = "replicate (nat R) (replicate (nat C) TILE_OPEN)"
  note cm = createMap_returns [OF pos]
  have ib': "in_bounds R C (row ?p, col ?p)" using ib by simp
  from loadRows_spec [OF cm(2), of 0 "Some rest" ?p]
  obtain g s' where g: "loadRows (Some rest) ?g0 R C ?p 0 = Some (g, s')"
    "map length g = map length ?g0"
    "0 \<le> row ?p \<and> in_bounds R C (row ?p, col ?p) \<longrightarrow>
       cell g (row ?p, col ?p) = Some TILE_PLAYER"
    by auto
  have "loadLevel (Some content) maxRow maxCol player = Some (Inr (Some g, R, C, ?p))"
    using hd cm(1) g(1) by (simp add: loadLevel_def)
  moreover have "wf_grid g R C" using cm(2) wf_grid_shape [OF g(2)] by simp
  moreover have "cell g (pr, pc) = Some TILE_PLAYER" using g(3) ib' b by simp
  ultimately show ?thesis by blast
qed

theorem loadLevel_well_formed_witness:
  "''3 4 1 2 - - - - - - P - - - - T'' =
     [] @ decimal 3 @ '' '' @ decimal 4 @ '' '' @ decimal 1 @ '' '' @ decimal 2 @
     '' - - - - - - P - - - - T'' \<and>
   gap '' '' \<and> \<not> isdigit (hd '' - - - - - - P - - - - T'') \<and>
   (3::int) \<le> INT_MAX \<and> (4::int) \<le> INT_MAX \<and> in_bounds 3 4 (1, 2) \<and>
   loadLevel (Some ''3 4 1 2 - - - - - - P - - - - T'') 0 0 \<lparr>row = 0, col = 0, treasure = 3\<rparr> =
     Some (Inr (Some [''----'', ''--o-'', ''---T''], 3, 4, \<lparr>row = 1, col = 2, treasure = 3\<rparr>)) \<and>
   wf_grid [''----'', ''--o-'', ''---T''] 3 4 \<and>
   cell [''----'', ''--o-'', ''---T''] (1, 2) = Some TILE_PLAYER"
proof -
  let ?c = "''3 4 1 2 - - - - - - P - - - - T''"
  let ?rest = "'' - - - - - - P - - - - T''"
  let ?p = "\<lparr>row = 0, col = 0, treasure = 3\<rparr>"
  have t: "?c = [] @ decimal 3 @ '' '' @ decimal 4 @ '' '' @ decimal 1 @ '' '' @ decimal 2 @ ?rest"
    by code_simp
  have w0: "list_all isspace []" by simp
  have g: "gap '' ''" by (simp add: gap_def isspace_def)
  have nd: "\<not> isdigit (hd ?rest)" by (simp add: isdigit_def)
  have r: "?rest = [] \<or> \<not> isdigit (hd ?rest)" using nd by simp
  have m: "(3::int) \<le> INT_MAX" "(4::int) \<le> INT_MAX" by (simp_all add: INT_MAX_def)
  have ib: "in_bounds 3 4 (1, 2)" by (simp add: in_bounds_def)
  have ev: "loadLevel (Some ?c) 0 0 ?p =
     Some (Inr (Some [''----'', ''--o-'', ''---T''], 3, 4, \<lparr>row = 1, col = 2, treasure = 3\<rparr>))"
    by code_simp
  from loadLevel_well_formed [OF t w0 g g g r m ib, of 0 0 ?p]
  have "wf_grid [''----'', ''--o-'', ''---T''] 3 4 \<and>
        cell [''----'', ''--o-'', ''---T''] (1, 2) = Some TILE_PLAYER"
    unfolding ev by simp
  then show ?thesis using t g nd m ib ev by simp
qed

text \<open>
  C3 as stated fails on the treasure count: a caller whose player holds three treasures
  gets a player with three treasures back, not zero.
\<close>

theorem loadLevel_treasure_counterexample:
  "loadLevel (Some ''3 3 1 1 - - - - P - - - T'') 0 0 \<lparr>row = 0, col = 0, treasure = 3\<rparr> =
     Some (Inr (Some [''---'', ''-o-'', ''--T''], 3, 3, \<lparr>row = 1, col = 1, treasure = 3\<rparr>)) \<and>
   treasure \<lparr>row = 1, col = 1, treasure = 3\<rparr> \<noteq> 0"
proof -
  have "loadLevel (Some ''3 3 1 1 - - - - P - - - T'') 0 0 \<lparr>row = 0, col = 0, treasure = 3\<rparr> =
     Some (Inr (Some [''---'', ''-o-'', ''--T''], 3, 3, \<lparr>row = 1, col = 1, treasure = 3\<rparr>))"
    by code_simp
  then show ?thesis by simp
qed

text \<open>
  C10 (player coordinates outside the map), as the code has it. The file consists of the
  decimal texts of \<open>R\<close>, \<open>C\<close>, \<open>pr\<close> and \<open>pc\<close> as above, the numbers fit \<^verbatim>\<open>int\<close>, and \<open>(pr, pc)\<close>
  lies outside \<open>[0, R) \<times> [0, C)\<close>. When the row count is not negative and, unless it is
  zero, the column count is not negative either, \<^verbatim>\<open>loadLevel\<close> reports no error: it
  returns a non-null map of the declared dimensions, which is exactly the map the plain
  reading of the tokens gives (no cell is forced to the player marker), and the returned
  player carries the out-of-bounds coordinates \<open>pr\<close> and \<open>pc\<close>.
\<close>

theorem loadLevel_player_out_of_bounds:
  assumes ct: "content = w0 @ decimal R @ w1 @ decimal C @ w2 @ decimal pr @ w3 @ decimal pc @ rest"
    and sp: "list_all isspace w0" "gap w1" "gap w2" "gap w3"
    and rest: "rest = [] \<or> \<not> isdigit (hd rest)"
    and rng: "R \<le> INT_MAX" "INT_MIN \<le> C" "C \<le> INT_MAX"
      "INT_MIN \<le> pr" "pr \<le> INT_MAX" "INT_MIN \<le> pc" "pc \<le> INT_MAX"
    and dims: "0 \<le> R" "R = 0 \<or> 0 \<le> C"
    and ob: "\<not> in_bounds R C (pr, pc)"
  shows "\<exists>g ifs'. loadLevel (Some content) maxRow maxCol player =
                    Some (Inr (Some g, R, C, player\<lparr>row := pr, col := pc\<rparr>)) \<and>
           wf_grid g R C \<and>
           readRows (Some rest) (replicate (nat R) (replicate (nat C) TILE_OPEN)) R C 0 =
             Some (g, ifs')"
proof -
  let ?p = "player\<lparr>row := pr, col := pc\<rparr>"
  have r: "INT_MIN \<le> R" using dims(1) by (simp add: INT_MIN_def)
  have hd: "readHeader (Some content) maxRow maxCol player = (R, C, ?p, Some rest)"
    by (rule readHeader_text [OF ct sp rest r rng])
  let ?g0 = "replicate (nat R) (replicate (nat C) TILE_OPEN)"
  note cm = createMap_returns [OF dims]
  have ob': "\<not> in_bounds R C (row ?p, col ?p)" using ob by simp
  from loadRows_spec [OF cm(2), of 0 "Some rest" ?p]
  obtain g s' where g: "loadRows (Some rest) ?g0 R C ?p 0 = Some (g, s')"
    "map length g = map length ?g0"
    by auto
  have "loadLevel (Some content) maxRow maxCol player = Some (Inr (Some g, R, C, ?p))"
    using hd cm(1) g(1) by (simp add: loadLevel_def)
  moreover have "wf_grid g R C" using cm(2) wf_grid_shape [OF g(2)] by simp
  moreover have "readRows (Some rest) ?g0 R C 0 = Some (g, s')"
    using loadRows_plain [OF ob', of 0 "Some rest" ?g0] g(1) by simp
  ultimately show ?thesis by blast
qed

theorem loadLevel_player_out_of_bounds_witness:
  "''2 2 5 -7 - o M #'' =
     [] @ decimal 2 @ '' '' @ decimal 2 @ '' '' @ decimal 5 @ '' '' @ decimal (- 7) @ '' - o M #'' \<and>
   gap '' '' \<and> \<not> isdigit (hd '' - o M #'') \<and> \<not> in_bounds 2 2 (5, - 7) \<and>
   loadLevel (Some ''2 2 5 -7 - o M #'') 0 0 \<lparr>row = 0, col = 0, treasure = 0\<rparr> =
     Some (Inr (Some [''-o'', ''M#''], 2, 2, \<lparr>row = 5, col = - 7, treasure = 0\<rparr>)) \<and>
   wf_grid [''-o'', ''M#''] 2 2 \<and>
   readRows (Some '' - o M #'') (replicate (nat 2) (replicate (nat 2) TILE_OPEN)) 2 2 0 =
     Some ([''-o'', ''M#''], Some [])"
proof -
  let ?c = "''2 2 5 -7 - o M #''" and ?rest = "'' - o M #''"
  let ?p = "\<lparr>row = 0, col = 0, treasure = 0\<rparr>"
  have t: "?c = [] @ decimal 2 @ '' '' @ decimal 2 @ '' '' @ decimal 5 @ '' '' @ decimal (- 7) @ ?rest"
    by code_simp
  have w0: "list_all isspace []" by simp
  have g: "gap '' ''" by (simp add: gap_def isspace_def)
  have nd: "\<not> isdigit (hd ?rest)" by (simp add: isdigit_def)
  have r: "?rest = [] \<or> \<not> isdigit (hd ?rest)" using nd by simp
  have m: "(2::int) \<le> INT_MAX" "INT_MIN \<le> (2::int)" "INT_MIN \<le> (5::int)" "(5::int) \<le> INT_MAX"
    "INT_MIN \<le> (- 7::int)" "(- 7::int) \<le> INT_MAX"
    by (simp_all add: INT_MAX_def INT_MIN_def)
  have d: "(0::int) \<le> 2" "(2::int) = 0 \<or> (0::int) \<le> 2" by simp_all
  have ob: "\<not> in_bounds 2 2 (5, - 7)" by (simp add: in_bounds_def)
  have ev: "loadLevel (Some ?c) 0 0 ?p =
      Some (Inr (Some [''-o'', ''M#''], 2, 2, \<lparr>row = 5, col = - 7, treasure = 0\<rparr>))"
    by code_simp
  from loadLevel_player_out_of_bounds [OF t w0 g g g r m(1) m(2) m(1) m(3) m(4) m(5) m(6) d ob, of 0 0 ?p]
  have "wf_grid [''-o'', ''M#''] 2 2 \<and>
        (\<exists>ifs'. readRows (Some ?rest) (replicate (nat 2) (replicate (nat 2) TILE_OPEN)) 2 2 0 =
          Some ([''-o'', ''M#''], ifs'))"
    unfolding ev by simp
  moreover have "readRows (Some ?rest) (replicate (nat 2) (replicate (nat 2) TILE_OPEN)) 2 2 0 =
     Some ([''-o'', ''M#''], Some [])" by code_simp
  ultimately show ?thesis using t g nd ob ev by simp
qed

text \<open>
  C10 as stated fails for a negative row count: the file \<^verbatim>\<open>-1 3 0 0 ...\<close> declares the
  coordinates \<open>(0, 0)\<close>, which lie outside \<open>[0, -1) \<times> [0, 3)\<close>, and \<^verbatim>\<open>loadLevel\<close> returns no
  map: the allocation in \<^verbatim>\<open>createMap\<close> throws.
\<close>

theorem loadLevel_negative_rows_counterexample:
  "\<not> in_bounds (- 1) 3 (0, 0) \<and>
   readHeader (Some ''-1 3 0 0 - - -'') 0 0 \<lparr>row = 5, col = 5, treasure = 0\<rparr> =
     (- 1, 3, \<lparr>row = 0, col = 0, treasure = 0\<rparr>, Some '' - - -'') \<and>
   loadLevel (Some ''-1 3 0 0 - - -'') 0 0 \<lparr>row = 5, col = 5, treasure = 0\<rparr> =
     Some (Inl BadArrayNewLength)"
proof -
  have a: "\<not> in_bounds (- 1) 3 (0, 0)" by (simp add: in_bounds_def)
  have b: "readHeader (Some ''-1 3 0 0 - - -'') 0 0 \<lparr>row = 5, col = 5, treasure = 0\<rparr> =
     (- 1, 3, \<lparr>row = 0, col = 0, treasure = 0\<rparr>, Some '' - - -'')" by code_simp
  have c: "loadLevel (Some ''-1 3 0 0 - - -'') 0 0 \<lparr>row = 5, col = 5, treasure = 0\<rparr> =
     Some (Inl BadArrayNewLength)" by code_simp
  show ?thesis using a b c by simp
qed

section \<open>Properties of doMonsterAttack\<close>

subsection \<open>The four loops as instances of one\<close>

lemma scanLeft_cells:
  "scanLeft m player i = scanCells m (row player, i + 1) (map (\<lambda>j. (row player, j)) (rev [0..i]))"
proof (induction m player i rule: scanLeft.induct)
  case (1 m player i)
  show ?case
  proof (cases "i \<ge> 0")
    case False
    then show ?thesis by (simp add: scanLeft.simps [of m player i])
  next
    case True
    then have l: "rev [0..i] = i # rev [0..i - 1]" by (simp add: upto_rec2)
    show ?thesis
      unfolding l using True 1
      by (subst scanLeft.simps) (auto split: bind_splits)
  qed
qed

lemma scanRight_cells:
  "scanRight m maxCol player i =
     scanCells m (row player, i - 1) (map (\<lambda>j. (row player, j)) [i..maxCol - 1])"
proof (induction m maxCol player i rule: scanRight.induct)
  case (1 m maxCol player i)
  show ?case
  proof (cases "i < maxCol")
    case False
    then show ?thesis by (simp add: scanRight.simps [of m maxCol player i])
  next
    case True
    then have l: "[i..maxCol - 1] = i # [i + 1..maxCol - 1]" by (simp add: upto_rec1)
    show ?thesis
      unfolding l using True 1
      by (subst scanRight.simps) (auto split: bind_splits)
  qed
qed

lemma scanUp_cells:
  "scanUp m player i = scanCells m (i + 1, col player) (map (\<lambda>i. (i, col player)) (rev [0..i]))"
proof (induction m player i rule: scanUp.induct)
  case (1 m player i)
  show ?case
  proof (cases "i \<ge> 0")
    case False
    then show ?thesis by (simp add: scanUp.simps [of m player i])
  next
    case True
    then have l: "rev [0..i] = i # rev [0..i - 1]" by (simp add: upto_rec2)
    show ?thesis
      unfolding l using True 1
      by (subst scanUp.simps) (auto split: bind_splits)
  qed
qed

lemma scanDown_cells:
  "scanDown m maxRow player i =
     scanCells m (i - 1, col player) (map (\<lambda>i. (i, col player)) [i..maxRow - 1])"
proof (induction m maxRow player i rule: scanDown.induct)
  case (1 m maxRow player i)
  show ?case
  proof (cases "i < maxRow")
    case False
    then show ?thesis by (simp add: scanDown.simps [of m maxRow player i])
  next
    case True
    then have l: "[i..maxRow - 1] = i # [i + 1..maxRow - 1]" by (simp add: upto_rec1)
    show ?thesis
      unfolding l using True 1
      by (subst scanDown.simps) (auto split: bind_splits)
  qed
qed

lemma doMonsterAttack_scanAll:
  "doMonsterAttack m maxRow maxCol player =
     do {
       m4 \<leftarrow> scanAll m (row player, col player) (rays maxRow maxCol player);
       t \<leftarrow> cell m4 (row player, col player);
       Some (t = TILE_MONSTER, m4)
     }"
  by (simp add: doMonsterAttack_def rays_def rayLeft_def rayRight_def rayUp_def rayDown_def
      scanLeft_cells scanRight_cells scanUp_cells scanDown_cells)

subsection \<open>One ray\<close>

declare split_paired_All [simp del] split_paired_Ex [simp del]

lemma moveMonster_spec:
  assumes "cell m here = Some t" "cell m toward = Some s"
  shows "\<exists>m'. moveMonster m here toward = Some m' \<and> map length m' = map length m \<and>
           (\<forall>q. cell m' q = (if q = here then Some (if s = TILE_PLAYER then TILE_OPEN else s)
                             else if q = toward then Some t else cell m q))"
proof -
  obtain m1 where m1: "store m toward t = Some m1"
    using store_total [of m toward] assms(2) by auto
  have "cell m1 here \<noteq> None" using cell_store [OF m1, of here] assms(1) by simp
  then obtain m2 where m2: "store m1 here (if s = TILE_PLAYER then TILE_OPEN else s) = Some m2"
    using store_total by blast
  have "moveMonster m here toward = Some m2"
    using assms m1 m2 by (simp add: moveMonster_def)
  moreover have "map length m2 = map length m"
    using store_shape [OF m1] store_shape [OF m2] by simp
  moreover have "\<forall>q. cell m2 q = (if q = here then Some (if s = TILE_PLAYER then TILE_OPEN else s)
                             else if q = toward then Some t else cell m q)"
    using cell_store [OF m1] cell_store [OF m2] by simp
  ultimately show ?thesis by blast
qed

text \<open>One step of the generic loop, by the tile of the cell scanned.\<close>

lemma scanCells_pillar:
  "cell m p = Some TILE_PILLAR \<Longrightarrow> scanCells m prev (p # ps) = Some m"
  by simp

lemma scanCells_other:
  "cell m p = Some t \<Longrightarrow> t \<noteq> TILE_PILLAR \<Longrightarrow> t \<noteq> TILE_MONSTER \<Longrightarrow>
     scanCells m prev (p # ps) = scanCells m p ps"
  by simp

lemma scanCells_monster:
  assumes "cell m p = Some TILE_MONSTER" "cell m prev = Some s"
  shows "\<exists>m1. scanCells m prev (p # ps) = scanCells m1 p ps \<and> map length m1 = map length m \<and>
           (\<forall>q. cell m1 q = (if q = p then Some (if s = TILE_PLAYER then TILE_OPEN else s)
                             else if q = prev then Some TILE_MONSTER else cell m q))"
proof -
  from moveMonster_spec [OF assms]
  obtain m1 where m1: "moveMonster m p prev = Some m1" "map length m1 = map length m"
    "\<forall>q. cell m1 q = (if q = p then Some (if s = TILE_PLAYER then TILE_OPEN else s)
                             else if q = prev then Some TILE_MONSTER else cell m q)"
    by blast
  have "TILE_MONSTER \<noteq> TILE_PILLAR" by (simp add: tile_defs)
  then have "scanCells m prev (p # ps) = scanCells m1 p ps"
    using assms(1) m1(1) by simp
  then show ?thesis using m1(2,3) by blast
qed

lemma scanCells_frame:
  assumes "\<forall>c \<in> set (prev # cells). cell m c \<noteq> None"
  shows "\<exists>m'. scanCells m prev cells = Some m' \<and> map length m' = map length m \<and>
           (\<forall>q. q \<notin> set (prev # cells) \<longrightarrow> cell m' q = cell m q) \<and>
           (\<forall>q. cell m' q = Some TILE_PLAYER \<longrightarrow> cell m q = Some TILE_PLAYER)"
  using assms
proof (induction cells arbitrary: m prev)
  case Nil
  then show ?case by simp
next
  case (Cons p ps)
  obtain t where t: "cell m p = Some t" using Cons.prems by auto
  obtain s where s: "cell m prev = Some s" using Cons.prems by auto
  consider (pillar) "t = TILE_PILLAR" | (monster) "t = TILE_MONSTER"
    | (other) "t \<noteq> TILE_PILLAR" "t \<noteq> TILE_MONSTER" by blast
  then show ?case
  proof cases
    case pillar
    then show ?thesis using t by simp
  next
    case other
    have v: "\<forall>c \<in> set (p # ps). cell m c \<noteq> None" using Cons.prems by simp
    from Cons.IH [OF v] scanCells_other [OF t other, of prev ps]
    show ?thesis by auto
  next
    case monster
    from scanCells_monster [OF t [unfolded monster] s, of ps]
    obtain m1 where m1: "scanCells m prev (p # ps) = scanCells m1 p ps"
      "map length m1 = map length m"
      "\<forall>q. cell m1 q = (if q = p then Some (if s = TILE_PLAYER then TILE_OPEN else s)
                             else if q = prev then Some TILE_MONSTER else cell m q)"
      by blast
    have v: "\<forall>c \<in> set (p # ps). cell m1 c \<noteq> None"
      using Cons.prems cell_shape [OF m1(2)] by simp
    from Cons.IH [OF v]
    obtain m' where m': "scanCells m1 p ps = Some m'" "map length m' = map length m1"
      "\<forall>q. q \<notin> set (p # ps) \<longrightarrow> cell m' q = cell m1 q"
      "\<forall>q. cell m' q = Some TILE_PLAYER \<longrightarrow> cell m1 q = Some TILE_PLAYER"
      by blast
    have ne: "TILE_MONSTER \<noteq> TILE_PLAYER" "TILE_OPEN \<noteq> TILE_PLAYER" by (simp_all add: tile_defs)
    have "\<forall>q. q \<notin> set (prev # p # ps) \<longrightarrow> cell m' q = cell m q"
      using m'(3) m1(3) by simp
    moreover have "\<forall>q. cell m' q = Some TILE_PLAYER \<longrightarrow> cell m q = Some TILE_PLAYER"
    proof (intro allI impI)
      fix q assume "cell m' q = Some TILE_PLAYER"
      then have "cell m1 q = Some TILE_PLAYER" using m'(4) by blast
      then show "cell m q = Some TILE_PLAYER"
        using m1(3) [rule_format, of q] ne by (auto split: if_splits)
    qed
    ultimately show ?thesis using m1(1,2) m'(1,2) by simp
  qed
qed

lemma clear_upto_Cons_0: "clear_upto m (p # ps) 0 \<longleftrightarrow> cell m p \<noteq> Some TILE_PILLAR"
  by (simp add: clear_upto_def)

lemma clear_upto_Cons_Suc:
  "clear_upto m (p # ps) (Suc k) \<longleftrightarrow> cell m p \<noteq> Some TILE_PILLAR \<and> clear_upto m ps k"
  by (simp add: clear_upto_def)

lemma clear_upto_cong:
  assumes "\<forall>c \<in> set ps. cell m1 c = cell m c"
  shows "clear_upto m1 ps k = clear_upto m ps k"
proof -
  have "\<forall>c \<in> set (take (Suc k) ps). cell m1 c = cell m c"
    using assms by (meson in_set_takeD)
  then show ?thesis unfolding clear_upto_def list_all_iff by simp
qed

lemma adjacent_monster_cong:
  assumes "\<forall>c \<in> set ps. cell m1 c = cell m c"
  shows "adjacent_monster m1 ps = adjacent_monster m ps"
  using assms by (cases ps) (simp_all add: adjacent_monster_def)

lemma scanCells_monster_step:
  assumes d: "distinct (prev # p # ps)"
    and v: "\<forall>c \<in> set (prev # p # ps). cell m c \<noteq> None"
    and mo: "cell m p = Some TILE_MONSTER"
  obtains m1 s where "cell m prev = Some s"
    and "scanCells m prev (p # ps) = scanCells m1 p ps"
    and "\<forall>c \<in> set (p # ps). cell m1 c \<noteq> None"
    and "\<forall>c \<in> set ps. cell m1 c = cell m c"
    and "cell m1 p = Some (if s = TILE_PLAYER then TILE_OPEN else s)"
    and "cell m1 prev = Some TILE_MONSTER"
proof -
  obtain s where s: "cell m prev = Some s" using v by auto
  from scanCells_monster [OF mo s, of ps]
  obtain m1 where m1: "scanCells m prev (p # ps) = scanCells m1 p ps"
    "map length m1 = map length m"
    "\<forall>q. cell m1 q = (if q = p then Some (if s = TILE_PLAYER then TILE_OPEN else s)
                             else if q = prev then Some TILE_MONSTER else cell m q)"
    by blast
  have a: "\<forall>c \<in> set (p # ps). cell m1 c \<noteq> None" using v cell_shape [OF m1(2)] by simp
  have b: "\<forall>c \<in> set ps. cell m1 c = cell m c" using d m1(3) by auto
  have c: "cell m1 p = Some (if s = TILE_PLAYER then TILE_OPEN else s)" using m1(3) by simp
  have e: "cell m1 prev = Some TILE_MONSTER" using d m1(3) by simp
  show thesis using that [OF s m1(1) a b c e] .
qed

lemma scanCells_prev:
  assumes d: "distinct (prev # cells)"
    and v: "\<forall>c \<in> set (prev # cells). cell m c \<noteq> None"
    and run: "scanCells m prev cells = Some m'"
  shows "cell m' prev = (if adjacent_monster m cells then Some TILE_MONSTER else cell m prev)"
proof (cases cells)
  case Nil
  then show ?thesis using run by (simp add: adjacent_monster_def)
next
  case (Cons p ps)
  obtain t where t: "cell m p = Some t" using v Cons by auto
  have np: "prev \<notin> set (p # ps)" using d Cons by simp
  consider (pillar) "t = TILE_PILLAR" | (monster) "t = TILE_MONSTER"
    | (other) "t \<noteq> TILE_PILLAR" "t \<noteq> TILE_MONSTER" by blast
  then show ?thesis
  proof cases
    case pillar
    then show ?thesis using t run Cons by (simp add: adjacent_monster_def tile_defs)
  next
    case other
    have r: "scanCells m p ps = Some m'"
      using run Cons scanCells_other [OF t other, of prev ps] by simp
    have v': "\<forall>c \<in> set (p # ps). cell m c \<noteq> None" using v Cons by simp
    from scanCells_frame [OF v'] r np have "cell m' prev = cell m prev" by auto
    then show ?thesis using t other Cons by (simp add: adjacent_monster_def)
  next
    case monster
    from scanCells_monster_step [OF d [unfolded Cons] v [unfolded Cons] t [unfolded monster]]
    obtain m1 s where m1: "scanCells m prev (p # ps) = scanCells m1 p ps"
      "\<forall>c \<in> set (p # ps). cell m1 c \<noteq> None" "cell m1 prev = Some TILE_MONSTER"
      by metis
    have r: "scanCells m1 p ps = Some m'" using run Cons m1(1) by simp
    from scanCells_frame [OF m1(2)] r np have "cell m' prev = cell m1 prev" by auto
    then show ?thesis using t monster Cons m1(3) by (simp add: adjacent_monster_def)
  qed
qed

lemma scanCells_head:
  assumes d: "distinct (prev # p # ps)"
    and v: "\<forall>c \<in> set (prev # p # ps). cell m c \<noteq> None"
    and mo: "cell m p = Some TILE_MONSTER"
    and s: "cell m prev = Some s"
    and run: "scanCells m prev (p # ps) = Some m'"
  shows "cell m' p = (if adjacent_monster m ps then Some TILE_MONSTER
                      else Some (if s = TILE_PLAYER then TILE_OPEN else s))"
proof -
  from scanCells_monster_step [OF d v mo]
  obtain m1 s' where m1: "cell m prev = Some s'"
    "scanCells m prev (p # ps) = scanCells m1 p ps"
    "\<forall>c \<in> set (p # ps). cell m1 c \<noteq> None"
    "\<forall>c \<in> set ps. cell m1 c = cell m c"
    "cell m1 p = Some (if s' = TILE_PLAYER then TILE_OPEN else s')"
    by metis
  have ss: "s' = s" using s m1(1) by simp
  have r: "scanCells m1 p ps = Some m'" using run m1(2) by simp
  have d': "distinct (p # ps)" using d by simp
  from scanCells_prev [OF d' m1(3) r]
  show ?thesis using adjacent_monster_cong [OF m1(4)] m1(5) ss by simp
qed

lemma scanCells_blocked:
  assumes "distinct (prev # cells)"
    and "\<forall>c \<in> set (prev # cells). cell m c \<noteq> None"
    and "scanCells m prev cells = Some m'"
    and "k < length cells" and "\<not> clear_upto m cells k"
  shows "cell m' (cells ! k) = cell m (cells ! k)"
  using assms
proof (induction cells arbitrary: m prev k)
  case Nil
  then show ?case by simp
next
  case (Cons p ps)
  obtain t where t: "cell m p = Some t" using Cons.prems(2) by auto
  have d': "distinct (p # ps)" using Cons.prems(1) by simp
  show ?case
  proof (cases "t = TILE_PILLAR")
    case True
    then show ?thesis using t Cons.prems(3) by simp
  next
    case np: False
    then obtain k' where k: "k = Suc k'" "k' < length ps" "\<not> clear_upto m ps k'"
      using Cons.prems(4,5) t by (cases k) (auto simp: clear_upto_Cons_0 clear_upto_Cons_Suc)
    show ?thesis
    proof (cases "t = TILE_MONSTER")
      case False
      have r: "scanCells m p ps = Some m'"
        using Cons.prems(3) scanCells_other [OF t np False, of prev ps] by simp
      have v': "\<forall>c \<in> set (p # ps). cell m c \<noteq> None" using Cons.prems(2) by simp
      from Cons.IH [OF d' v' r k(2,3)] show ?thesis using k(1) by simp
    next
      case True
      from scanCells_monster_step [OF Cons.prems(1,2) t [unfolded True]]
      obtain m1 s where m1: "scanCells m prev (p # ps) = scanCells m1 p ps"
        "\<forall>c \<in> set (p # ps). cell m1 c \<noteq> None"
        "\<forall>c \<in> set ps. cell m1 c = cell m c"
        by metis
      have r: "scanCells m1 p ps = Some m'" using Cons.prems(3) m1(1) by simp
      have nc: "\<not> clear_upto m1 ps k'" using k(3) clear_upto_cong [OF m1(3)] by simp
      from Cons.IH [OF d' m1(2) r k(2) nc] m1(3) k(2)
      show ?thesis using k(1) by simp
    qed
  qed
qed

lemma scanCells_dest:
  assumes "distinct (prev # cells)"
    and "\<forall>c \<in> set (prev # cells). cell m c \<noteq> None"
    and "scanCells m prev cells = Some m'"
    and "k < length cells" and "clear_upto m cells k"
    and "cell m (cells ! k) = Some TILE_MONSTER"
  shows "cell m' ((prev # cells) ! k) = Some TILE_MONSTER"
  using assms
proof (induction cells arbitrary: m prev k)
  case Nil
  then show ?case by simp
next
  case (Cons p ps)
  have d': "distinct (p # ps)" using Cons.prems(1) by simp
  show ?case
  proof (cases k)
    case 0
    then have "adjacent_monster m (p # ps)" using Cons.prems(6) by (simp add: adjacent_monster_def)
    then show ?thesis using scanCells_prev [OF Cons.prems(1,2,3)] 0 by simp
  next
    case (Suc k')
    obtain t where t: "cell m p = Some t" using Cons.prems(2) by auto
    have k: "k' < length ps" "clear_upto m ps k'" "cell m (ps ! k') = Some TILE_MONSTER"
      and np: "t \<noteq> TILE_PILLAR"
      using Cons.prems(4,5,6) Suc t by (auto simp: clear_upto_Cons_Suc)
    show ?thesis
    proof (cases "t = TILE_MONSTER")
      case False
      have r: "scanCells m p ps = Some m'"
        using Cons.prems(3) scanCells_other [OF t np False, of prev ps] by simp
      have v': "\<forall>c \<in> set (p # ps). cell m c \<noteq> None" using Cons.prems(2) by simp
      from Cons.IH [OF d' v' r k] show ?thesis using Suc by simp
    next
      case True
      from scanCells_monster_step [OF Cons.prems(1,2) t [unfolded True]]
      obtain m1 s where m1: "scanCells m prev (p # ps) = scanCells m1 p ps"
        "\<forall>c \<in> set (p # ps). cell m1 c \<noteq> None"
        "\<forall>c \<in> set ps. cell m1 c = cell m c"
        by metis
      have r: "scanCells m1 p ps = Some m'" using Cons.prems(3) m1(1) by simp
      have c1: "clear_upto m1 ps k'" using k(2) clear_upto_cong [OF m1(3)] by simp
      have c2: "cell m1 (ps ! k') = Some TILE_MONSTER" using k(1,3) m1(3) by simp
      from Cons.IH [OF d' m1(2) r k(1) c1 c2] show ?thesis using Suc by simp
    qed
  qed
qed

lemma scanCells_vacated:
  assumes "distinct (prev # cells)"
    and "\<forall>c \<in> set (prev # cells). cell m c \<noteq> None"
    and "scanCells m prev cells = Some m'"
    and "cell m prev \<noteq> Some TILE_MONSTER"
    and "k < length cells" and "clear_upto m cells k"
    and "cell m (cells ! k) = Some TILE_MONSTER"
  shows "cell m' (cells ! k) = Some TILE_MONSTER \<longleftrightarrow>
           Suc k < length cells \<and> cell m (cells ! Suc k) = Some TILE_MONSTER"
  using assms
proof (induction cells arbitrary: m prev k)
  case Nil
  then show ?case by simp
next
  case (Cons p ps)
  have d': "distinct (p # ps)" using Cons.prems(1) by simp
  have om: "TILE_OPEN \<noteq> TILE_MONSTER" by (simp add: tile_defs)
  show ?case
  proof (cases k)
    case 0
    obtain s where s: "cell m prev = Some s" using Cons.prems(2) by auto
    have mo: "cell m p = Some TILE_MONSTER" using Cons.prems(7) 0 by simp
    have sm: "(if s = TILE_PLAYER then TILE_OPEN else s) \<noteq> TILE_MONSTER"
      using s Cons.prems(4) om by simp
    have "adjacent_monster m ps \<longleftrightarrow>
            Suc 0 < length (p # ps) \<and> cell m ((p # ps) ! Suc 0) = Some TILE_MONSTER"
      by (cases ps) (simp_all add: adjacent_monster_def)
    then show ?thesis
      using scanCells_head [OF Cons.prems(1,2) mo s Cons.prems(3)] sm 0 by simp
  next
    case (Suc k')
    obtain t where t: "cell m p = Some t" using Cons.prems(2) by auto
    have k: "k' < length ps" "clear_upto m ps k'" "cell m (ps ! k') = Some TILE_MONSTER"
      and np: "t \<noteq> TILE_PILLAR"
      using Cons.prems(5,6,7) Suc t by (auto simp: clear_upto_Cons_Suc)
    show ?thesis
    proof (cases "t = TILE_MONSTER")
      case False
      have r: "scanCells m p ps = Some m'"
        using Cons.prems(3) scanCells_other [OF t np False, of prev ps] by simp
      have v': "\<forall>c \<in> set (p # ps). cell m c \<noteq> None" using Cons.prems(2) by simp
      have pm: "cell m p \<noteq> Some TILE_MONSTER" using t False by simp
      from Cons.IH [OF d' v' r pm k] show ?thesis using Suc by simp
    next
      case True
      from scanCells_monster_step [OF Cons.prems(1,2) t [unfolded True]]
      obtain m1 s where m1: "cell m prev = Some s"
        "scanCells m prev (p # ps) = scanCells m1 p ps"
        "\<forall>c \<in> set (p # ps). cell m1 c \<noteq> None"
        "\<forall>c \<in> set ps. cell m1 c = cell m c"
        "cell m1 p = Some (if s = TILE_PLAYER then TILE_OPEN else s)"
        by metis
      have r: "scanCells m1 p ps = Some m'" using Cons.prems(3) m1(2) by simp
      have pm: "cell m1 p \<noteq> Some TILE_MONSTER" using m1(1,5) Cons.prems(4) om by simp
      have c1: "clear_upto m1 ps k'" using k(2) clear_upto_cong [OF m1(4)] by simp
      have c2: "cell m1 (ps ! k') = Some TILE_MONSTER" using k(1,3) m1(4) by simp
      have c3: "Suc k' < length ps \<Longrightarrow> cell m1 (ps ! Suc k') = cell m (ps ! Suc k')"
        using m1(4) by simp
      from Cons.IH [OF d' m1(3) r pm k(1) c1 c2] c3 show ?thesis using Suc by auto
    qed
  qed
qed

lemma monsters_upto_cong:
  assumes "\<forall>c \<in> set ps. cell m1 c = cell m c"
  shows "list_all (\<lambda>c. cell m1 c = Some TILE_MONSTER) (take k ps) =
         list_all (\<lambda>c. cell m c = Some TILE_MONSTER) (take k ps)"
proof -
  have "\<forall>c \<in> set (take k ps). cell m1 c = cell m c"
    using assms by (meson in_set_takeD)
  then show ?thesis unfolding list_all_iff by simp
qed

lemma scanCells_leaves:
  assumes "distinct (prev # cells)"
    and "\<forall>c \<in> set (prev # cells). cell m c \<noteq> None"
    and "scanCells m prev cells = Some m'"
    and "\<not> (cell m prev = Some TILE_MONSTER \<and>
            list_all (\<lambda>c. cell m c = Some TILE_MONSTER) (take k cells))"
    and "k < length cells" and "clear_upto m cells k"
    and "cell m (cells ! k) = Some TILE_MONSTER"
  shows "cell m' (cells ! k) = Some TILE_MONSTER \<longleftrightarrow>
           Suc k < length cells \<and> cell m (cells ! Suc k) = Some TILE_MONSTER"
  using assms
proof (induction cells arbitrary: m prev k)
  case Nil
  then show ?case by simp
next
  case (Cons p ps)
  have d': "distinct (p # ps)" using Cons.prems(1) by simp
  have om: "TILE_OPEN \<noteq> TILE_MONSTER" by (simp add: tile_defs)
  show ?case
  proof (cases k)
    case 0
    have pm: "cell m prev \<noteq> Some TILE_MONSTER" using Cons.prems(4) 0 by simp
    show ?thesis
      using scanCells_vacated [OF Cons.prems(1,2,3) pm Cons.prems(5,6,7)] .
  next
    case (Suc k')
    obtain t where t: "cell m p = Some t" using Cons.prems(2) by auto
    have k: "k' < length ps" "clear_upto m ps k'" "cell m (ps ! k') = Some TILE_MONSTER"
      and np: "t \<noteq> TILE_PILLAR"
      using Cons.prems(5,6,7) Suc t by (auto simp: clear_upto_Cons_Suc)
    show ?thesis
    proof (cases "t = TILE_MONSTER")
      case False
      have r: "scanCells m p ps = Some m'"
        using Cons.prems(3) scanCells_other [OF t np False, of prev ps] by simp
      have v': "\<forall>c \<in> set (p # ps). cell m c \<noteq> None" using Cons.prems(2) by simp
      have pm: "\<not> (cell m p = Some TILE_MONSTER \<and>
            list_all (\<lambda>c. cell m c = Some TILE_MONSTER) (take k' ps))" using t False by simp
      from Cons.IH [OF d' v' r pm k] show ?thesis using Suc by simp
    next
      case True
      from scanCells_monster_step [OF Cons.prems(1,2) t [unfolded True]]
      obtain m1 s where m1: "cell m prev = Some s"
        "scanCells m prev (p # ps) = scanCells m1 p ps"
        "\<forall>c \<in> set (p # ps). cell m1 c \<noteq> None"
        "\<forall>c \<in> set ps. cell m1 c = cell m c"
        "cell m1 p = Some (if s = TILE_PLAYER then TILE_OPEN else s)"
        by metis
      have r: "scanCells m1 p ps = Some m'" using Cons.prems(3) m1(2) by simp
      have tk: "list_all (\<lambda>c. cell m1 c = Some TILE_MONSTER) (take k' ps) =
                list_all (\<lambda>c. cell m c = Some TILE_MONSTER) (take k' ps)"
        by (rule monsters_upto_cong [OF m1(4)])
      have "\<not> (s = TILE_MONSTER \<and> list_all (\<lambda>c. cell m c = Some TILE_MONSTER) (take k' ps))"
        using Cons.prems(4) Suc t True m1(1) by simp
      then have pm: "\<not> (cell m1 p = Some TILE_MONSTER \<and>
            list_all (\<lambda>c. cell m1 c = Some TILE_MONSTER) (take k' ps))"
        using m1(5) om tk by auto
      have c1: "clear_upto m1 ps k'" using k(2) clear_upto_cong [OF m1(4)] by simp
      have c2: "cell m1 (ps ! k') = Some TILE_MONSTER" using k(1,3) m1(4) by simp
      have c3: "Suc k' < length ps \<Longrightarrow> cell m1 (ps ! Suc k') = cell m (ps ! Suc k')"
        using m1(4) by simp
      from Cons.IH [OF d' m1(3) r pm k(1) c1 c2] c3 show ?thesis using Suc by auto
    qed
  qed
qed

subsection \<open>The four rays in sequence\<close>

lemma scanAll_append:
  "scanAll m pos (xs @ ys) = scanAll m pos xs \<bind> (\<lambda>m1. scanAll m1 pos ys)"
  by (induction xs arbitrary: m) (auto split: bind_splits)

lemma scanAll_frame:
  assumes "\<forall>c \<in> set (pos # concat rs). cell m c \<noteq> None"
  shows "\<exists>m'. scanAll m pos rs = Some m' \<and> map length m' = map length m \<and>
           (\<forall>q. q \<notin> set (pos # concat rs) \<longrightarrow> cell m' q = cell m q) \<and>
           (\<forall>q. cell m' q = Some TILE_PLAYER \<longrightarrow> cell m q = Some TILE_PLAYER)"
  using assms
proof (induction rs arbitrary: m)
  case Nil
  then show ?case by simp
next
  case (Cons r rs)
  have v: "\<forall>c \<in> set (pos # r). cell m c \<noteq> None" using Cons.prems by simp
  from scanCells_frame [OF v]
  obtain m1 where m1: "scanCells m pos r = Some m1" "map length m1 = map length m"
    "\<forall>q. q \<notin> set (pos # r) \<longrightarrow> cell m1 q = cell m q"
    "\<forall>q. cell m1 q = Some TILE_PLAYER \<longrightarrow> cell m q = Some TILE_PLAYER"
    by blast
  have v1: "\<forall>c \<in> set (pos # concat rs). cell m1 c \<noteq> None"
    using Cons.prems cell_shape [OF m1(2)] by simp
  from Cons.IH [OF v1]
  obtain m' where m': "scanAll m1 pos rs = Some m'" "map length m' = map length m1"
    "\<forall>q. q \<notin> set (pos # concat rs) \<longrightarrow> cell m' q = cell m1 q"
    "\<forall>q. cell m' q = Some TILE_PLAYER \<longrightarrow> cell m1 q = Some TILE_PLAYER"
    by blast
  have "scanAll m pos (r # rs) = Some m'" using m1(1) m'(1) by simp
  moreover have "map length m' = map length m" using m1(2) m'(2) by simp
  moreover have "\<forall>q. q \<notin> set (pos # concat (r # rs)) \<longrightarrow> cell m' q = cell m q"
    using m1(3) m'(3) by simp
  moreover have "\<forall>q. cell m' q = Some TILE_PLAYER \<longrightarrow> cell m q = Some TILE_PLAYER"
    using m1(4) m'(4) by blast
  ultimately show ?case by blast
qed

lemma scanAll_pos:
  assumes "distinct (pos # concat rs)"
    and "\<forall>c \<in> set (pos # concat rs). cell m c \<noteq> None"
    and "scanAll m pos rs = Some m'"
  shows "cell m' pos = (if \<exists>r \<in> set rs. adjacent_monster m r then Some TILE_MONSTER
                        else cell m pos)"
  using assms
proof (induction rs arbitrary: m)
  case Nil
  then show ?case by simp
next
  case (Cons r rs)
  have d: "distinct (pos # r)" using Cons.prems(1) by simp
  have v: "\<forall>c \<in> set (pos # r). cell m c \<noteq> None" using Cons.prems(2) by simp
  from scanCells_frame [OF v]
  obtain m1 where m1: "scanCells m pos r = Some m1" "map length m1 = map length m"
    "\<forall>q. q \<notin> set (pos # r) \<longrightarrow> cell m1 q = cell m q"
    by blast
  have r: "scanAll m1 pos rs = Some m'" using Cons.prems(3) m1(1) by simp
  have d1: "distinct (pos # concat rs)" using Cons.prems(1) by simp
  have v1: "\<forall>c \<in> set (pos # concat rs). cell m1 c \<noteq> None"
    using Cons.prems(2) cell_shape [OF m1(2)] by simp
  have "\<forall>x \<in> set rs. \<forall>c \<in> set x. cell m1 c = cell m c"
  proof (intro ballI)
    fix x c assume "x \<in> set rs" "c \<in> set x"
    then have "c \<in> set (concat rs)" by auto
    then have "c \<notin> set (pos # r)" using Cons.prems(1) by auto
    then show "cell m1 c = cell m c" using m1(3) by blast
  qed
  then have adj: "\<forall>x \<in> set rs. adjacent_monster m1 x = adjacent_monster m x"
    using adjacent_monster_cong by blast
  have p1: "cell m1 pos = (if adjacent_monster m r then Some TILE_MONSTER else cell m pos)"
    by (rule scanCells_prev [OF d v m1(1)])
  show ?case using Cons.IH [OF d1 v1 r] adj p1 by auto
qed

text \<open>
  The call seen from one ray \<open>r\<close>: the rays before it leave its cells alone, then \<open>r\<close> is
  scanned, and the rays after it leave its cells alone again; the player's cell, once it
  holds a monster, keeps it.
\<close>

lemma scanAll_split:
  assumes d: "distinct (pos # concat (xs @ r # ys))"
    and v: "\<forall>c \<in> set (pos # concat (xs @ r # ys)). cell m c \<noteq> None"
  obtains ma mb m' where "scanAll m pos (xs @ r # ys) = Some m'"
    and "scanCells ma pos r = Some mb"
    and "\<forall>c \<in> set (pos # r). cell ma c \<noteq> None"
    and "\<forall>c \<in> set r. cell ma c = cell m c"
    and "cell ma pos = (if \<exists>x \<in> set xs. adjacent_monster m x then Some TILE_MONSTER
                        else cell m pos)"
    and "\<forall>c \<in> set r. cell m' c = cell mb c"
    and "cell mb pos = Some TILE_MONSTER \<longrightarrow> cell m' pos = Some TILE_MONSTER"
    and "map length m' = map length m"
proof -
  have vx: "\<forall>c \<in> set (pos # concat xs). cell m c \<noteq> None" using v by simp
  have dx: "distinct (pos # concat xs)" using d by simp
  from scanAll_frame [OF vx]
  obtain ma where ma: "scanAll m pos xs = Some ma" "map length ma = map length m"
    "\<forall>q. q \<notin> set (pos # concat xs) \<longrightarrow> cell ma q = cell m q"
    by blast
  have va: "\<forall>c \<in> set (pos # r). cell ma c \<noteq> None" using v cell_shape [OF ma(2)] by simp
  have ea: "\<forall>c \<in> set r. cell ma c = cell m c"
  proof
    fix c assume "c \<in> set r"
    then have "c \<notin> set (pos # concat xs)" using d by auto
    then show "cell ma c = cell m c" using ma(3) by blast
  qed
  have pa: "cell ma pos = (if \<exists>x \<in> set xs. adjacent_monster m x then Some TILE_MONSTER
                        else cell m pos)"
    by (rule scanAll_pos [OF dx vx ma(1)])
  from scanCells_frame [OF va]
  obtain mb where mb: "scanCells ma pos r = Some mb" "map length mb = map length ma"
    by blast
  have vy: "\<forall>c \<in> set (pos # concat ys). cell mb c \<noteq> None"
    using v cell_shape [OF mb(2)] cell_shape [OF ma(2)] by simp
  have dy: "distinct (pos # concat ys)" using d by simp
  from scanAll_frame [OF vy]
  obtain m' where m': "scanAll mb pos ys = Some m'" "map length m' = map length mb"
    "\<forall>q. q \<notin> set (pos # concat ys) \<longrightarrow> cell m' q = cell mb q"
    by blast
  have run: "scanAll m pos (xs @ r # ys) = Some m'"
    using ma(1) mb(1) m'(1) by (simp add: scanAll_append)
  have eb: "\<forall>c \<in> set r. cell m' c = cell mb c"
  proof
    fix c assume "c \<in> set r"
    then have "c \<notin> set (pos # concat ys)" using d by auto
    then show "cell m' c = cell mb c" using m'(3) by blast
  qed
  have pb: "cell mb pos = Some TILE_MONSTER \<longrightarrow> cell m' pos = Some TILE_MONSTER"
    using scanAll_pos [OF dy vy m'(1)] by simp
  have sh: "map length m' = map length m" using ma(2) mb(2) m'(2) by simp
  show thesis using that [OF run mb(1) va ea pa eb pb sh] .
qed

subsection \<open>The rays of a player inside the map\<close>

lemma rays_in_bounds:
  assumes "in_bounds maxRow maxCol (row player, col player)"
  shows "\<forall>c \<in> set ((row player, col player) # concat (rays maxRow maxCol player)).
           in_bounds maxRow maxCol c"
  using assms
  by (auto simp: rays_def rayLeft_def rayRight_def rayUp_def rayDown_def in_bounds_def)

lemma rays_distinct:
  "distinct ((row player, col player) # concat (rays maxRow maxCol player))"
  by (auto simp: rays_def rayLeft_def rayRight_def rayUp_def rayDown_def distinct_map inj_on_def)

lemma rays_valid:
  assumes "wf_grid m maxRow maxCol" "in_bounds maxRow maxCol (row player, col player)"
  shows "\<forall>c \<in> set ((row player, col player) # concat (rays maxRow maxCol player)).
           cell m c \<noteq> None"
  using rays_in_bounds [OF assms(2)] cell_Some_iff_wf [OF assms(1)] by blast

lemma length_rays: "length (rays maxRow maxCol player) = 4"
  by (simp add: rays_def)

lemma distinct_concat_member:
  "distinct (p # concat rs) \<Longrightarrow> r \<in> set rs \<Longrightarrow> distinct (p # r)"
  by (induction rs) auto

lemma ex_take_nth:
  assumes "d \<le> length xs"
  shows "(\<exists>x \<in> set (take d xs). P x) \<longleftrightarrow> (\<exists>d' < d. P (xs ! d'))"
proof
  assume "\<exists>x \<in> set (take d xs). P x"
  then obtain i where "i < length (take d xs)" "P (take d xs ! i)"
    by (auto simp: in_set_conv_nth)
  then have "i < d" "P (xs ! i)" by simp_all
  then show "\<exists>d' < d. P (xs ! d')" by blast
next
  assume "\<exists>d' < d. P (xs ! d')"
  then obtain i where i: "i < d" "P (xs ! i)" by blast
  then have "i < length (take d xs)" "take d xs ! i = xs ! i" using assms by simp_all
  then have "take d xs ! i \<in> set (take d xs)" "P (take d xs ! i)"
    using i(2) nth_mem by (blast, simp)
  then show "\<exists>x \<in> set (take d xs). P x" by blast
qed

text \<open>The whole call, seen from the ray number \<open>d\<close>.\<close>

lemma doMonsterAttack_ray:
  assumes wf: "wf_grid m maxRow maxCol"
    and ib: "in_bounds maxRow maxCol (row player, col player)"
    and dl: "d < length (rays maxRow maxCol player)"
  obtains b m' ma mb where
    "doMonsterAttack m maxRow maxCol player = Some (b, m')"
    and "b \<longleftrightarrow> cell m' (row player, col player) = Some TILE_MONSTER"
    and "scanCells ma (row player, col player) (rays maxRow maxCol player ! d) = Some mb"
    and "\<forall>c \<in> set ((row player, col player) # rays maxRow maxCol player ! d). cell ma c \<noteq> None"
    and "\<forall>c \<in> set (rays maxRow maxCol player ! d). cell ma c = cell m c"
    and "cell ma (row player, col player) =
           (if \<exists>d' < d. adjacent_monster m (rays maxRow maxCol player ! d')
            then Some TILE_MONSTER else cell m (row player, col player))"
    and "\<forall>c \<in> set (rays maxRow maxCol player ! d). cell m' c = cell mb c"
    and "cell mb (row player, col player) = Some TILE_MONSTER \<longrightarrow>
           cell m' (row player, col player) = Some TILE_MONSTER"
proof -
  let ?pos = "(row player, col player)" and ?rs = "rays maxRow maxCol player"
  have sp: "take d ?rs @ ?rs ! d # drop (Suc d) ?rs = ?rs"
    by (rule id_take_nth_drop [OF dl, symmetric])
  have d: "distinct (?pos # concat (take d ?rs @ ?rs ! d # drop (Suc d) ?rs))"
    unfolding sp by (rule rays_distinct)
  have v: "\<forall>c \<in> set (?pos # concat (take d ?rs @ ?rs ! d # drop (Suc d) ?rs)). cell m c \<noteq> None"
    unfolding sp by (rule rays_valid [OF wf ib])
  obtain ma mb m' where s:
    "scanAll m ?pos (take d ?rs @ ?rs ! d # drop (Suc d) ?rs) = Some m'"
    "scanCells ma ?pos (?rs ! d) = Some mb"
    "\<forall>c \<in> set (?pos # ?rs ! d). cell ma c \<noteq> None"
    "\<forall>c \<in> set (?rs ! d). cell ma c = cell m c"
    "cell ma ?pos = (if \<exists>x \<in> set (take d ?rs). adjacent_monster m x then Some TILE_MONSTER
                        else cell m ?pos)"
    "\<forall>c \<in> set (?rs ! d). cell m' c = cell mb c"
    "cell mb ?pos = Some TILE_MONSTER \<longrightarrow> cell m' ?pos = Some TILE_MONSTER"
    "map length m' = map length m"
    by (rule scanAll_split [OF d v])
  have run: "scanAll m ?pos ?rs = Some m'" using s(1) unfolding sp .
  have "cell m ?pos \<noteq> None" using rays_valid [OF wf ib] by simp
  then obtain t where t: "cell m' ?pos = Some t" using cell_shape [OF s(8), of ?pos] by auto
  have r: "doMonsterAttack m maxRow maxCol player = Some (t = TILE_MONSTER, m')"
    using run t by (simp add: doMonsterAttack_scanAll)
  have b: "(t = TILE_MONSTER) \<longleftrightarrow> cell m' ?pos = Some TILE_MONSTER" using t by simp
  have pa: "cell ma ?pos = (if \<exists>d' < d. adjacent_monster m (?rs ! d')
            then Some TILE_MONSTER else cell m ?pos)"
    using s(5) ex_take_nth [of d ?rs "adjacent_monster m"] dl by simp
  show thesis using that [OF r b s(2) s(3) s(4) pa s(6) s(7)] .
qed

subsection \<open>The claims about doMonsterAttack\<close>

text \<open>
  C1 (how many monsters a ray moves), as the code has it. The player is inside a map of
  the declared extent; \<open>d\<close> numbers the rays in scan order and \<open>k\<close> the cells of ray \<open>d\<close>
  outwards from the player. A cell at or behind the first pillar of its ray is left as
  it was. The loop does not stop after moving a monster: every monster that stands
  before the first pillar, the nearest and those farther out alike, is relocated one
  step towards the player. The cell on its player side holds a monster after the call;
  and, unless the monster found a monster on the cell it moved into, its own cell holds
  a monster afterwards only when another monster stood right behind it and followed, so
  a monster with nothing behind it has left its cell.
\<close>

theorem doMonsterAttack_every_monster_in_sight:
  assumes wf: "wf_grid m maxRow maxCol"
    and ib: "in_bounds maxRow maxCol (row player, col player)"
    and dl: "d < length (rays maxRow maxCol player)"
    and k: "k < length (rays maxRow maxCol player ! d)"
  shows "\<exists>b m'. doMonsterAttack m maxRow maxCol player = Some (b, m') \<and>
           (\<not> clear_upto m (rays maxRow maxCol player ! d) k \<longrightarrow>
              cell m' (rays maxRow maxCol player ! d ! k) =
              cell m (rays maxRow maxCol player ! d ! k)) \<and>
           (clear_upto m (rays maxRow maxCol player ! d) k \<and>
            cell m (rays maxRow maxCol player ! d ! k) = Some TILE_MONSTER \<longrightarrow>
              cell m' (((row player, col player) # rays maxRow maxCol player ! d) ! k) =
                Some TILE_MONSTER \<and>
              (\<not> monster_ahead m maxRow maxCol player d k \<longrightarrow>
                 (cell m' (rays maxRow maxCol player ! d ! k) = Some TILE_MONSTER \<longleftrightarrow>
                    Suc k < length (rays maxRow maxCol player ! d) \<and>
                    cell m (rays maxRow maxCol player ! d ! Suc k) = Some TILE_MONSTER)))"
proof -
  let ?pos = "(row player, col player)"
  define ray where "ray = rays maxRow maxCol player ! d"
  have rm: "ray \<in> set (rays maxRow maxCol player)" using dl by (simp add: ray_def)
  have k': "k < length ray" using k by (simp add: ray_def)
  obtain b m' ma mb where
    "doMonsterAttack m maxRow maxCol player = Some (b, m')"
    "b \<longleftrightarrow> cell m' ?pos = Some TILE_MONSTER"
    "scanCells ma ?pos (rays maxRow maxCol player ! d) = Some mb"
    "\<forall>c \<in> set (?pos # rays maxRow maxCol player ! d). cell ma c \<noteq> None"
    "\<forall>c \<in> set (rays maxRow maxCol player ! d). cell ma c = cell m c"
    "cell ma ?pos = (if \<exists>d' < d. adjacent_monster m (rays maxRow maxCol player ! d')
            then Some TILE_MONSTER else cell m ?pos)"
    "\<forall>c \<in> set (rays maxRow maxCol player ! d). cell m' c = cell mb c"
    "cell mb ?pos = Some TILE_MONSTER \<longrightarrow> cell m' ?pos = Some TILE_MONSTER"
    by (rule doMonsterAttack_ray [OF wf ib dl])
  note s = this [folded ray_def]
  have dist: "distinct (?pos # ray)"
    by (rule distinct_concat_member [OF rays_distinct rm])
  have cl: "clear_upto ma ray k = clear_upto m ray k" by (rule clear_upto_cong [OF s(5)])
  have kk: "ray ! k \<in> set ray" using k' by simp
  have B: "cell m' (ray ! k) = cell m (ray ! k)" if "\<not> clear_upto m ray k"
    using scanCells_blocked [OF dist s(4) s(3) k'] that cl s(5) s(7) kk by simp
  have le: "(\<exists>d' < d. adjacent_monster m (rays maxRow maxCol player ! d')) \<longleftrightarrow>
            list_ex (adjacent_monster m) (take d (rays maxRow maxCol player))"
    using ex_take_nth [of d "rays maxRow maxCol player" "adjacent_monster m"] dl
    by (simp add: list_ex_iff)
  have pa: "cell ma ?pos = Some TILE_MONSTER \<longleftrightarrow>
              cell m ?pos = Some TILE_MONSTER \<or>
              list_ex (adjacent_monster m) (take d (rays maxRow maxCol player))"
    using s(6) le by auto
  have tk: "list_all (\<lambda>c. cell ma c = Some TILE_MONSTER) (take k ray) =
            list_all (\<lambda>c. cell m c = Some TILE_MONSTER) (take k ray)"
    by (rule monsters_upto_cong [OF s(5)])
  have DV: "cell m' ((?pos # ray) ! k) = Some TILE_MONSTER \<and>
            (\<not> monster_ahead m maxRow maxCol player d k \<longrightarrow>
              (cell m' (ray ! k) = Some TILE_MONSTER \<longleftrightarrow>
                 Suc k < length ray \<and> cell m (ray ! Suc k) = Some TILE_MONSTER))"
    if c: "clear_upto m ray k" and mo: "cell m (ray ! k) = Some TILE_MONSTER"
  proof -
    have ca: "clear_upto ma ray k" using c cl by simp
    have ma: "cell ma (ray ! k) = Some TILE_MONSTER" using mo s(5) kk by simp
    have mb: "cell mb ((?pos # ray) ! k) = Some TILE_MONSTER"
      by (rule scanCells_dest [OF dist s(4) s(3) k' ca ma])
    have D: "cell m' ((?pos # ray) ! k) = Some TILE_MONSTER"
    proof (cases k)
      case 0
      then show ?thesis using mb s(8) by simp
    next
      case (Suc j)
      then have "(?pos # ray) ! k \<in> set ray" using k' by simp
      then show ?thesis using mb s(7) by simp
    qed
    have V: "cell m' (ray ! k) = Some TILE_MONSTER \<longleftrightarrow>
               Suc k < length ray \<and> cell m (ray ! Suc k) = Some TILE_MONSTER"
      if na: "\<not> monster_ahead m maxRow maxCol player d k"
    proof -
      have pm: "\<not> (cell ma ?pos = Some TILE_MONSTER \<and>
            list_all (\<lambda>c. cell ma c = Some TILE_MONSTER) (take k ray))"
        using na pa tk unfolding monster_ahead_def ray_def [symmetric] by blast
      have "cell mb (ray ! k) = Some TILE_MONSTER \<longleftrightarrow>
            Suc k < length ray \<and> cell ma (ray ! Suc k) = Some TILE_MONSTER"
        by (rule scanCells_leaves [OF dist s(4) s(3) pm k' ca ma])
      moreover have "Suc k < length ray \<Longrightarrow> cell ma (ray ! Suc k) = cell m (ray ! Suc k)"
        using s(5) by simp
      ultimately show ?thesis using s(7) kk by auto
    qed
    show ?thesis using D V by blast
  qed
  show ?thesis using s(1) B DV unfolding ray_def by blast
qed

theorem doMonsterAttack_every_monster_in_sight_witness:
  "wf_grid [''M#MM-o''] 1 6 \<and> in_bounds 1 6 (0, 5) \<and>
   rays 1 6 \<lparr>row = 0, col = 5, treasure = 0\<rparr> =
     [[(0, 4), (0, 3), (0, 2), (0, 1), (0, 0)], [], [], []] \<and>
   doMonsterAttack [''M#MM-o''] 1 6 \<lparr>row = 0, col = 5, treasure = 0\<rparr> =
     Some (False, [''M#-MMo'']) \<and>
   clear_upto [''M#MM-o''] [(0, 4), (0, 3), (0, 2), (0, 1), (0, 0)] 2 \<and>
   cell [''M#MM-o''] (0, 2) = Some TILE_MONSTER \<and>
   \<not> monster_ahead [''M#MM-o''] 1 6 \<lparr>row = 0, col = 5, treasure = 0\<rparr> 0 2 \<and>
   cell [''M#-MMo''] (0, 3) = Some TILE_MONSTER \<and>
   cell [''M#-MMo''] (0, 2) \<noteq> Some TILE_MONSTER \<and>
   \<not> clear_upto [''M#MM-o''] [(0, 4), (0, 3), (0, 2), (0, 1), (0, 0)] 4 \<and>
   cell [''M#-MMo''] (0, 0) = cell [''M#MM-o''] (0, 0)"
proof -
  let ?g = "[''M#MM-o'']" and ?p = "\<lparr>row = 0, col = 5, treasure = 0\<rparr>"
  let ?ray = "[(0, 4), (0, 3), (0, 2), (0, 1), (0, 0)] :: (int \<times> int) list"
  have h1: "wf_grid ?g 1 6" by (simp add: wf_grid_def)
  have h2: "in_bounds 1 6 (row ?p, col ?p)" by (simp add: in_bounds_def)
  have rs: "rays 1 6 ?p = [?ray, [], [], []]" by code_simp
  have h3: "0 < length (rays 1 6 ?p)" unfolding rs by simp
  have k2: "2 < length (rays 1 6 ?p ! 0)" and k4: "4 < length (rays 1 6 ?p ! 0)"
    unfolding rs by simp_all
  have ev: "doMonsterAttack ?g 1 6 ?p = Some (False, [''M#-MMo''])" by code_simp
  have c: "clear_upto ?g ?ray 2" by (simp add: clear_upto_def cell.simps tile_defs)
  have nc: "\<not> clear_upto ?g ?ray 4" by (simp add: clear_upto_def cell.simps tile_defs)
  have mo: "cell ?g (0, 2) = Some TILE_MONSTER" by (simp add: cell.simps tile_defs)
  have nx: "cell ?g (0, 1) \<noteq> Some TILE_MONSTER" by (simp add: cell.simps tile_defs)
  have na: "\<not> monster_ahead ?g 1 6 ?p 0 2"
    unfolding monster_ahead_def rs by (simp add: cell.simps tile_defs)
  from doMonsterAttack_every_monster_in_sight [OF h1 h2 h3 k2]
  have a: "cell [''M#-MMo''] (0, 3) = Some TILE_MONSTER \<and>
           cell [''M#-MMo''] (0, 2) \<noteq> Some TILE_MONSTER"
    unfolding ev rs using c mo nx na [unfolded rs] by simp
  from doMonsterAttack_every_monster_in_sight [OF h1 h2 h3 k4]
  have b: "cell [''M#-MMo''] (0, 0) = cell ?g (0, 0)"
    unfolding ev rs using nc by simp
  show ?thesis using h1 h2 rs ev c mo na a nc b by simp
qed

text \<open>
  C1 as stated fails: in the row \<^verbatim>\<open>M M - o\<close> no pillar stands between the player and the two
  monsters, and one call moves both of them; the farther one leaves column 0.
\<close>

theorem doMonsterAttack_second_monster_counterexample:
  "cell [''MM-o''] (0, 0) = Some TILE_MONSTER \<and> cell [''MM-o''] (0, 1) = Some TILE_MONSTER \<and>
   cell [''MM-o''] (0, 2) \<noteq> Some TILE_PILLAR \<and>
   doMonsterAttack [''MM-o''] 1 4 \<lparr>row = 0, col = 3, treasure = 0\<rparr> = Some (False, [''-MMo'']) \<and>
   cell [''-MMo''] (0, 0) \<noteq> Some TILE_MONSTER \<and> cell [''-MMo''] (0, 1) = Some TILE_MONSTER \<and>
   cell [''-MMo''] (0, 2) = Some TILE_MONSTER"
proof -
  have "doMonsterAttack [''MM-o''] 1 4 \<lparr>row = 0, col = 3, treasure = 0\<rparr> = Some (False, [''-MMo''])"
    by code_simp
  then show ?thesis by (simp add: cell.simps tile_defs)
qed

text \<open>
  C8 (line of sight) fails on the code when two monsters stand next to the player. In
  the row \<^verbatim>\<open>M o M\<close> the left monster takes the player's cell first and leaves an open cell
  behind. The right monster has the player in clear line of sight with nothing behind
  it, yet after the call its cell still holds a monster: the test for the player marker
  no longer finds the marker on the player's cell, and the monster tile found there is
  copied back. Alone, the same monster moves and leaves its cell open (\<^verbatim>\<open>- o M\<close> gives
  \<^verbatim>\<open>- M -\<close>).
\<close>

theorem doMonsterAttack_second_adjacent_monster_stays:
  "cell [''MoM''] (0, 1) = Some TILE_PLAYER \<and> cell [''MoM''] (0, 2) = Some TILE_MONSTER \<and>
   doMonsterAttack [''MoM''] 1 3 \<lparr>row = 0, col = 1, treasure = 0\<rparr> = Some (True, [''-MM'']) \<and>
   cell [''-MM''] (0, 2) = Some TILE_MONSTER \<and>
   doMonsterAttack [''-oM''] 1 3 \<lparr>row = 0, col = 1, treasure = 0\<rparr> = Some (True, [''-M-''])"
proof -
  have "doMonsterAttack [''MoM''] 1 3 \<lparr>row = 0, col = 1, treasure = 0\<rparr> = Some (True, [''-MM''])"
    by code_simp
  moreover have
    "doMonsterAttack [''-oM''] 1 3 \<lparr>row = 0, col = 1, treasure = 0\<rparr> = Some (True, [''-M-''])"
    by code_simp
  ultimately show ?thesis by (simp add: cell.simps tile_defs)
qed

text \<open>
  What holds of the capture in general: the flag returned is true exactly when the
  player's cell holds a monster after the four loops, the player marker is never copied,
  and the monster of the first ray in scan order that has one next to the player leaves
  an open cell behind unless a second monster followed into it.
\<close>

lemma doMonsterAttack_first_capture:
  assumes wf: "wf_grid m maxRow maxCol"
    and ib: "in_bounds maxRow maxCol (row player, col player)"
  shows "\<exists>b m'. doMonsterAttack m maxRow maxCol player = Some (b, m') \<and>
           (b \<longleftrightarrow> cell m' (row player, col player) = Some TILE_MONSTER) \<and>
           (\<forall>q. cell m' q = Some TILE_PLAYER \<longrightarrow> cell m q = Some TILE_PLAYER) \<and>
           (\<forall>d < length (rays maxRow maxCol player).
              cell m (row player, col player) = Some TILE_PLAYER \<and>
              adjacent_monster m (rays maxRow maxCol player ! d) \<and>
              (\<forall>d' < d. \<not> adjacent_monster m (rays maxRow maxCol player ! d')) \<longrightarrow>
                b \<and> cell m' (hd (rays maxRow maxCol player ! d)) =
                      (if adjacent_monster m (tl (rays maxRow maxCol player ! d))
                       then Some TILE_MONSTER else Some TILE_OPEN))"
proof -
  let ?pos = "(row player, col player)" and ?rs = "rays maxRow maxCol player"
  have v: "\<forall>c \<in> set (?pos # concat ?rs). cell m c \<noteq> None" by (rule rays_valid [OF wf ib])
  from scanAll_frame [OF v]
  obtain m' where m': "scanAll m ?pos ?rs = Some m'" "map length m' = map length m"
    "\<forall>q. cell m' q = Some TILE_PLAYER \<longrightarrow> cell m q = Some TILE_PLAYER"
    by blast
  have "cell m ?pos \<noteq> None" using v by simp
  then obtain t where t: "cell m' ?pos = Some t" using cell_shape [OF m'(2), of ?pos] by auto
  have run: "doMonsterAttack m maxRow maxCol player = Some (t = TILE_MONSTER, m')"
    using m'(1) t by (simp add: doMonsterAttack_scanAll)
  have b: "(t = TILE_MONSTER) \<longleftrightarrow> cell m' ?pos = Some TILE_MONSTER" using t by simp
  have C: "(t = TILE_MONSTER) \<and> cell m' (hd (?rs ! d)) =
             (if adjacent_monster m (tl (?rs ! d)) then Some TILE_MONSTER else Some TILE_OPEN)"
    if dl: "d < length ?rs" and pm: "cell m ?pos = Some TILE_PLAYER"
      and adj: "adjacent_monster m (?rs ! d)"
      and first: "\<forall>d' < d. \<not> adjacent_monster m (?rs ! d')" for d
  proof -
    define ray where "ray = ?rs ! d"
    have rm: "ray \<in> set ?rs" using dl by (simp add: ray_def)
    obtain b2 m2 ma mb where
      "doMonsterAttack m maxRow maxCol player = Some (b2, m2)"
      "b2 \<longleftrightarrow> cell m2 ?pos = Some TILE_MONSTER"
      "scanCells ma ?pos (rays maxRow maxCol player ! d) = Some mb"
      "\<forall>c \<in> set (?pos # rays maxRow maxCol player ! d). cell ma c \<noteq> None"
      "\<forall>c \<in> set (rays maxRow maxCol player ! d). cell ma c = cell m c"
      "cell ma ?pos = (if \<exists>d' < d. adjacent_monster m (rays maxRow maxCol player ! d')
              then Some TILE_MONSTER else cell m ?pos)"
      "\<forall>c \<in> set (rays maxRow maxCol player ! d). cell m2 c = cell mb c"
      "cell mb ?pos = Some TILE_MONSTER \<longrightarrow> cell m2 ?pos = Some TILE_MONSTER"
      by (rule doMonsterAttack_ray [OF wf ib dl])
    note s = this [folded ray_def]
    have same: "m2 = m'" "b2 = (t = TILE_MONSTER)" using s(1) run by simp_all
    have dist: "distinct (?pos # ray)"
      by (rule distinct_concat_member [OF rays_distinct rm])
    obtain p ps where ray: "ray = p # ps" and mo: "cell m p = Some TILE_MONSTER"
      using adj unfolding ray_def [symmetric] adjacent_monster_def by (cases ray) auto
    have pa: "cell ma ?pos = Some TILE_PLAYER" using s(6) first pm by auto
    have moa: "cell ma p = Some TILE_MONSTER" using mo s(5) ray by simp
    have aa: "adjacent_monster ma ray" using moa ray by (simp add: adjacent_monster_def)
    have "cell mb ?pos = Some TILE_MONSTER"
      using scanCells_prev [OF dist s(4) s(3)] aa by simp
    then have cap: "t = TILE_MONSTER" using s(8) same t by simp
    have "\<forall>c \<in> set ps. cell ma c = cell m c" using s(5) ray by simp
    then have at: "adjacent_monster ma ps = adjacent_monster m ps"
      by (rule adjacent_monster_cong)
    have "cell mb p = (if adjacent_monster ma ps then Some TILE_MONSTER
                       else Some (if TILE_PLAYER = TILE_PLAYER then TILE_OPEN else TILE_PLAYER))"
      by (rule scanCells_head [OF dist [unfolded ray] s(4) [unfolded ray] moa pa s(3) [unfolded ray]])
    then have "cell m' p = (if adjacent_monster m ps then Some TILE_MONSTER else Some TILE_OPEN)"
      using at s(7) ray same by simp
    then show ?thesis using cap ray unfolding ray_def [symmetric] by simp
  qed
  show ?thesis using run b m'(3) C by blast
qed

text \<open>
  C9 (capture) fails on the code in its second half. In the row \<^verbatim>\<open>M o M\<close> the call returns
  true with a monster on the player's cell, and the left monster, which stepped onto the
  player marker, leaves an open cell. The right monster then steps onto the player's
  cell as well, but the cell it should vacate does not become open: it holds a monster.
\<close>

theorem doMonsterAttack_capture_leaves_monster:
  "doMonsterAttack [''MoM''] 1 3 \<lparr>row = 0, col = 1, treasure = 0\<rparr> = Some (True, [''-MM'']) \<and>
   cell [''-MM''] (0, 1) = Some TILE_MONSTER \<and>
   cell [''-MM''] (0, 0) = Some TILE_OPEN \<and>
   cell [''-MM''] (0, 2) \<noteq> Some TILE_OPEN"
proof -
  have "doMonsterAttack [''MoM''] 1 3 \<lparr>row = 0, col = 1, treasure = 0\<rparr> = Some (True, [''-MM''])"
    by code_simp
  then show ?thesis by (simp add: cell.simps tile_defs)
qed

end
